theory Spec2Isabelle
  imports Main "HOL-Library.Word" "HOL-Library.Signed_Division"
begin

section \<open>Pixel data\<close>

text \<open>
  A tile is a C-contiguous array of \<open>TILE_SIZE \<times> TILE_SIZE \<times> 4\<close> elements, stored here as
  the flat list of its elements: channel \<open>c\<close> of the pixel in row \<open>y\<close>, column \<open>x\<close> is element
  \<open>4 * TILE_SIZE * y + 4 * x + c\<close>. The macro \<open>TILE_SIZE\<close> comes from a header outside the
  files modelled here, so the edge length is the parameter \<open>N\<close> of every tile operation.
  \<open>uint16_t\<close>, \<open>uint8_t\<close> and \<open>uint32_t\<close> are words; \<open>int32_t\<close> and \<open>int64_t\<close> values are
  integers wherever the operands (16-bit values and their pairwise products) cannot
  leave the type's range. A call that would read or write outside its buffers, or
  divide by zero, has no value in the model: the operations return \<open>None\<close> there.
\<close>

type_synonym u8 = "8 word"
type_synonym u16 = "16 word"
type_synonym u32 = "32 word"

definition tile_len :: "nat \<Rightarrow> nat" where
  "tile_len N = 4 * (N * N)"

text \<open>
  The \<open>MAX\<close> and \<open>CLAMP\<close> macros of glib, as the C preprocessor expands them
  (\<open>MAX\<close> is a reserved word of HOL's syntax, hence \<open>MAX_int\<close>).
\<close>

definition MAX_int :: "int \<Rightarrow> int \<Rightarrow> int" where
  "MAX_int a b = (if a > b then a else b)"

definition CLAMP :: "int \<Rightarrow> int \<Rightarrow> int \<Rightarrow> int" where
  "CLAMP x low high = (if x > high then high else if x < low then low else x)"

text \<open>\<open>for (i = 0; i < n; i++) s = body i s\<close>.\<close>

primrec for_loop :: "nat \<Rightarrow> (nat \<Rightarrow> 's \<Rightarrow> 's) \<Rightarrow> 's \<Rightarrow> 's" where
  "for_loop 0 body s = s"
| "for_loop (Suc n) body s = body n (for_loop n body s)"

section \<open>Tile compositing\<close>

text \<open>
  \<open>tile_composite_data<B>\<close>. The conversion of the floating-point opacity
  (\<open>fix15_short_clamp (src_opacity * fix15_one)\<close>) and the buffer compositor
  \<open>BufferComp<..., B>::composite_src_over\<close> come from the included headers
  \<open>compositing.hpp\<close> and \<open>blendmodes.hpp\<close>, outside the files modelled here; they are
  the parameters \<open>to_fix15\<close> and \<open>composite_src_over\<close>. The compositor stands for the
  blend mode \<open>B\<close> as well, and receives \<open>dst_has_alpha\<close> to choose between its RGBA and
  RGBX output policies.
\<close>

definition tile_composite_data ::
  "('o \<Rightarrow> u16) \<Rightarrow> (bool \<Rightarrow> u16 list \<Rightarrow> u16 list \<Rightarrow> u16 \<Rightarrow> u16 list) \<Rightarrow>
   u16 list \<Rightarrow> u16 list \<Rightarrow> bool \<Rightarrow> 'o \<Rightarrow> u16 list" where
  "tile_composite_data to_fix15 composite_src_over src dst dst_has_alpha src_opacity =
    (let opac = to_fix15 src_opacity in
     if opac = 0 then dst
     else if dst_has_alpha then composite_src_over True src dst opac
     else composite_src_over False src dst opac)"

section \<open>Mipmap downscaling\<close>

text \<open>
  \<open>tile_downscale_rgba16\<close>. One destination channel: the four source samples are promoted to
  \<open>int\<close>, each is divided by 4, and the sum is stored as a \<open>uint16_t\<close>.
  \<open>sp\<close> is the offset of the upper left pixel of the 2\<times>2 block (the pointer \<open>src_p\<close>).
\<close>

definition downscale_channel :: "nat \<Rightarrow> u16 list \<Rightarrow> nat \<Rightarrow> nat \<Rightarrow> u16" where
  "downscale_channel N src sp c =
     word_of_int (uint (src ! (sp + c)) div 4 + uint (src ! (sp + 4 + c)) div 4
       + uint (src ! (sp + 4 * N + c)) div 4 + uint (src ! (sp + 4 * N + 4 + c)) div 4)"

definition downscale_px :: "nat \<Rightarrow> u16 list \<Rightarrow> nat \<Rightarrow> nat \<Rightarrow> u16 list \<Rightarrow> u16 list" where
  "downscale_px N src sp dp dst =
     dst[dp := downscale_channel N src sp 0,
         dp + 1 := downscale_channel N src sp 1,
         dp + 2 := downscale_channel N src sp 2,
         dp + 3 := downscale_channel N src sp 3]"

text \<open>
  Both arrays are tiles, and the quadrant written lies inside the destination tile;
  a call outside this contract has no result here (\<open>None\<close>). In row \<open>y\<close> the source
  pointer starts at row \<open>2 * y\<close> and moves by 8 elements per pixel, the destination
  pointer starts at row \<open>y + dst_y\<close>, column \<open>dst_x\<close> and moves by 4.
\<close>

definition tile_downscale_rgba16 ::
  "nat \<Rightarrow> u16 list \<Rightarrow> u16 list \<Rightarrow> nat \<Rightarrow> nat \<Rightarrow> u16 list option" where
  "tile_downscale_rgba16 N src dst dst_x dst_y =
    (if length src = tile_len N \<and> length dst = tile_len N
        \<and> dst_x + N div 2 \<le> N \<and> dst_y + N div 2 \<le> N
     then Some (for_loop (N div 2) (\<lambda>y.
            for_loop (N div 2) (\<lambda>x.
              downscale_px N src (2 * y * (4 * N) + 8 * x)
                ((y + dst_y) * (4 * N) + 4 * dst_x + 4 * x))) dst)
     else None)"

section \<open>Dithering noise\<close>

text \<open>
  The static table \<open>dithering_noise\<close> with its flag \<open>have_noise\<close>. \<open>rand()\<close> is the C library's
  generator; the value of its \<open>i\<close>-th call is \<open>rnd i\<close>, a natural number since
  \<open>rand()\<close> is never negative.
\<close>

definition dithering_noise_size :: nat where
  "dithering_noise_size = 64 * 64 * 2"

record noise_state =
  have_noise :: bool
  dithering_noise :: "u16 list"

definition initial_noise_state :: noise_state where
  "initial_noise_state =
     \<lparr>have_noise = False, dithering_noise = replicate dithering_noise_size 0\<rparr>"

definition noise_value :: "nat \<Rightarrow> u16" where
  "noise_value r = word_of_nat ((r mod 32768) * 240 div 256 + 32768 * 8 div 256)"

definition precalculate_dithering_noise_if_required ::
  "(nat \<Rightarrow> nat) \<Rightarrow> noise_state \<Rightarrow> noise_state" where
  "precalculate_dithering_noise_if_required rnd st =
    (if \<not> have_noise st
     then \<lparr>have_noise = True,
           dithering_noise =
             for_loop dithering_noise_size (\<lambda>i t. t[i := noise_value (rnd i)])
               (dithering_noise st)\<rparr>
     else st)"

text \<open>
  The band of the table as documented: values in \<open>[0.03, 0.97] * 32768\<close>, that is the
  integers from 984 to 31784.
\<close>

definition noise_in_band :: "u16 list \<Rightarrow> bool" where
  "noise_in_band t \<longleftrightarrow> (\<forall>v \<in> set t. 984 \<le> unat v \<and> unat v \<le> 31784)"

section \<open>Bit-depth conversion\<close>

text \<open>
  \<open>tile_convert_rgba16_to_rgba8\<close>, one pixel: \<open>sp\<close> and \<open>dp\<close> are the offsets of the pixel
  in \<open>src\<close> and \<open>dst\<close>, the state is the pair of \<open>noise_idx\<close> and the destination.
  All arithmetic is \<open>uint32_t\<close>; the stores truncate to \<open>uint8_t\<close>.
\<close>

definition rgba16_to_rgba8_px ::
  "u16 list \<Rightarrow> u16 list \<Rightarrow> nat \<Rightarrow> nat \<Rightarrow> nat \<times> u8 list \<Rightarrow> nat \<times> u8 list" where
  "rgba16_to_rgba8_px noise src sp dp st =
    (let noise_idx = fst st; dst = snd st;
         r = ucast (src ! sp) :: u32;
         g = ucast (src ! (sp + 1)) :: u32;
         b = ucast (src ! (sp + 2)) :: u32;
         a = ucast (src ! (sp + 3)) :: u32;
         r' = (if a \<noteq> 0 then (push_bit 15 r + a div 2) div a else 0);
         g' = (if a \<noteq> 0 then (push_bit 15 g + a div 2) div a else 0);
         b' = (if a \<noteq> 0 then (push_bit 15 b + a div 2) div a else 0);
         add_r = ucast (noise ! noise_idx) :: u32;
         add_g = add_r;
         add_b = add_r;
         add_a = ucast (noise ! (noise_idx + 1)) :: u32
     in (noise_idx + 2,
         dst[dp := ucast ((r' * 255 + add_r) div 32768),
             dp + 1 := ucast ((g' * 255 + add_g) div 32768),
             dp + 2 := ucast ((b' * 255 + add_b) div 32768),
             dp + 3 := ucast ((a * 255 + add_a) div 32768)]))"

text \<open>
  The function first fills the noise table if that has not happened yet, then walks the
  rows and columns of the tile. It has a result when both arrays are tiles and the table
  holds the \<open>2 * N * N\<close> entries the walk consumes.
\<close>

definition tile_convert_rgba16_to_rgba8 ::
  "nat \<Rightarrow> (nat \<Rightarrow> nat) \<Rightarrow> noise_state \<Rightarrow> u16 list \<Rightarrow> u8 list \<Rightarrow> (noise_state \<times> u8 list) option" where
  "tile_convert_rgba16_to_rgba8 N rnd st src dst =
    (let st' = precalculate_dithering_noise_if_required rnd st in
     if length src = tile_len N \<and> length dst = tile_len N
        \<and> 2 * (N * N) \<le> length (dithering_noise st')
     then Some (st', snd (for_loop N (\<lambda>y.
            for_loop N (\<lambda>x.
              rgba16_to_rgba8_px (dithering_noise st') src
                (y * (4 * N) + 4 * x) (y * (4 * N) + 4 * x))) (0, dst)))
     else None)"

text \<open>\<open>tile_convert_rgba8_to_rgba16\<close>, one pixel and the whole tile.\<close>

definition rgba8_to_rgba16_px :: "u8 list \<Rightarrow> nat \<Rightarrow> nat \<Rightarrow> u16 list \<Rightarrow> u16 list" where
  "rgba8_to_rgba16_px src sp dp dst =
    (let r = ucast (src ! sp) :: u32;
         g = ucast (src ! (sp + 1)) :: u32;
         b = ucast (src ! (sp + 2)) :: u32;
         a = ucast (src ! (sp + 3)) :: u32;
         r = (r * 32768 + 127) div 255;
         g = (g * 32768 + 127) div 255;
         b = (b * 32768 + 127) div 255;
         a = (a * 32768 + 127) div 255
     in dst[dp := ucast ((r * a + 16384) div 32768),
            dp + 1 := ucast ((g * a + 16384) div 32768),
            dp + 2 := ucast ((b * a + 16384) div 32768),
            dp + 3 := ucast a])"

definition tile_convert_rgba8_to_rgba16 :: "nat \<Rightarrow> u8 list \<Rightarrow> u16 list \<Rightarrow> u16 list option" where
  "tile_convert_rgba8_to_rgba16 N src dst =
    (if length src = tile_len N \<and> length dst = tile_len N
     then Some (for_loop N (\<lambda>y.
            for_loop N (\<lambda>x.
              rgba8_to_rgba16_px src (y * (4 * N) + 4 * x) (y * (4 * N) + 4 * x))) dst)
     else None)"

section \<open>Flatten and unflatten\<close>

text \<open>
  \<open>tile_rgba2flat\<close>, the pixel at offset \<open>p\<close>. \<open>one_minus_top_alpha\<close> is a \<open>uint32_t\<close>, so
  the subtraction wraps when alpha exceeds \<open>1<<15\<close>; \<open>+=\<close> adds in \<open>uint32_t\<close> and truncates
  the sum to \<open>uint16_t\<close>.
\<close>

definition rgba2flat_px :: "u16 list \<Rightarrow> nat \<Rightarrow> u16 list \<Rightarrow> u16 list" where
  "rgba2flat_px bg p dst =
    (let one_minus_top_alpha = 32768 - ucast (dst ! (p + 3)) :: u32;
         dst = dst[p := ucast (ucast (dst ! p) + one_minus_top_alpha * ucast (bg ! p) div 32768)];
         dst = dst[p + 1 :=
                 ucast (ucast (dst ! (p + 1)) + one_minus_top_alpha * ucast (bg ! (p + 1)) div 32768)];
         dst = dst[p + 2 :=
                 ucast (ucast (dst ! (p + 2)) + one_minus_top_alpha * ucast (bg ! (p + 2)) div 32768)]
     in dst)"

definition tile_rgba2flat :: "nat \<Rightarrow> u16 list \<Rightarrow> u16 list \<Rightarrow> u16 list option" where
  "tile_rgba2flat N dst bg =
    (if length dst = tile_len N \<and> length bg = tile_len N
     then Some (for_loop (N * N) (\<lambda>i. rgba2flat_px bg (4 * i)) dst)
     else None)"

text \<open>
  \<open>tile_flat2rgba\<close>, step 1 for one channel: \<open>final_alpha\<close> is a \<open>uint16_t\<close>, the quotient is
  computed in \<open>int64_t\<close> (C division truncates, \<open>sdiv\<close>), the larger of the two is stored
  back truncated to 16 bits, and then the maximum with the pixel's own alpha is taken.
  A division by zero has no defined result (\<open>None\<close>).
\<close>

definition flat2rgba_alpha_step :: "u16 \<Rightarrow> u16 \<Rightarrow> u16 \<Rightarrow> u16 \<Rightarrow> u16 option" where
  "flat2rgba_alpha_step final_alpha d b a =
    (let color_change = uint d - uint b in
     map_option (\<lambda>fa. word_of_int (MAX_int (uint fa) (uint a)))
      (if color_change > 0 then
         (if 32768 - uint b = 0 then None
          else Some (word_of_int
                 (MAX_int (uint final_alpha) (color_change * 32768 sdiv (32768 - uint b)))))
       else if color_change < 0 then
         (if uint b = 0 then None
          else Some (word_of_int
                 (MAX_int (uint final_alpha) ((- color_change) * 32768 sdiv uint b))))
       else Some final_alpha))"

definition flat2rgba_final_alpha :: "u16 list \<Rightarrow> nat \<Rightarrow> u16 list \<Rightarrow> u16 option" where
  "flat2rgba_final_alpha bg p dst =
    Option.bind (flat2rgba_alpha_step 0 (dst ! p) (bg ! p) (dst ! (p + 3))) (\<lambda>fa.
    Option.bind (flat2rgba_alpha_step fa (dst ! (p + 1)) (bg ! (p + 1)) (dst ! (p + 3))) (\<lambda>fa.
    flat2rgba_alpha_step fa (dst ! (p + 2)) (bg ! (p + 2)) (dst ! (p + 3))))"

text \<open>Step 2 for one channel: the colour premultiplied with the final alpha, clamped.\<close>

definition flat2rgba_color :: "u16 \<Rightarrow> u16 \<Rightarrow> u16 \<Rightarrow> u16" where
  "flat2rgba_color final_alpha d b =
    (let color_change = uint d - uint b;
         res = uint b * uint final_alpha div 32768 + color_change
     in word_of_int (CLAMP res 0 (uint final_alpha)))"

definition flat2rgba_px :: "u16 list \<Rightarrow> nat \<Rightarrow> u16 list \<Rightarrow> u16 list option" where
  "flat2rgba_px bg p dst =
    (case flat2rgba_final_alpha bg p dst of
       None \<Rightarrow> None
     | Some final_alpha \<Rightarrow>
         let dst = dst[p + 3 := final_alpha] in
         Some (if final_alpha > 0
               then for_loop 3
                      (\<lambda>i dst. dst[p + i := flat2rgba_color final_alpha (dst ! (p + i)) (bg ! (p + i))])
                      dst
               else dst[p := 0, p + 1 := 0, p + 2 := 0]))"

definition tile_flat2rgba :: "nat \<Rightarrow> u16 list \<Rightarrow> u16 list \<Rightarrow> u16 list option" where
  "tile_flat2rgba N dst bg =
    (if length dst = tile_len N \<and> length bg = tile_len N
     then for_loop (N * N) (\<lambda>i s. Option.bind s (flat2rgba_px bg (4 * i))) (Some dst)
     else None)"

text \<open>
  The minimal alpha that explains one channel's deviation from the background, in the
  words of the specification: the size of the colour change divided by the background
  or by its complement.
\<close>

definition alpha_required :: "u16 \<Rightarrow> u16 \<Rightarrow> int" where
  "alpha_required d b =
    (if uint d > uint b then (uint d - uint b) * 32768 div (32768 - uint b)
     else if uint d < uint b then (uint b - uint d) * 32768 div uint b
     else 0)"

section \<open>Stroke map\<close>

text \<open>
  \<open>tile_perceptual_change_strokemap\<close>, the pixel at offset \<open>p\<close> of the two snapshots. The
  products are \<open>uint32_t\<close> values below \<open>2^32\<close>, their quotients fit \<open>int32_t\<close>.
\<close>

definition strokemap_px :: "u16 list \<Rightarrow> u16 list \<Rightarrow> nat \<Rightarrow> u8" where
  "strokemap_px a b p =
    (let color_change = for_loop 3 (\<lambda>i color_change.
           let a_col = uint (a ! (p + i)) * uint (b ! (p + 3)) div 32768;
               b_col = uint (b ! (p + i)) * uint (a ! (p + 3)) div 32768
           in color_change + \<bar>b_col - a_col\<bar>) (0 :: int);
         alpha_old = uint (a ! (p + 3));
         alpha_new = uint (b ! (p + 3));
         is_perceptual_color_change = (color_change > MAX_int alpha_old alpha_new div 16);
         alpha_diff = alpha_new - alpha_old;
         is_perceptual_alpha_increase = (alpha_diff > 32768 div 4);
         is_big_relative_alpha_increase =
           (alpha_diff > 32768 div 64 \<and> alpha_diff > alpha_old div 2)
     in if is_perceptual_alpha_increase \<or> is_big_relative_alpha_increase
           \<or> is_perceptual_color_change
        then 1 else 0)"

definition tile_perceptual_change_strokemap ::
  "nat \<Rightarrow> u16 list \<Rightarrow> u16 list \<Rightarrow> u8 list \<Rightarrow> u8 list option" where
  "tile_perceptual_change_strokemap N a b res =
    (if length a = tile_len N \<and> length b = tile_len N \<and> length res = N * N
     then Some (for_loop N (\<lambda>y.
            for_loop N (\<lambda>x res.
              res[y * N + x := strokemap_px a b (4 * (y * N + x))])) res)
     else None)"

section \<open>Brush dabs\<close>

text \<open>
  The traversal of a run-length encoded mask that the dab functions share:
  \<open>while (1) { for (; mask[0]; mask++, rgba+=4) body; if (!mask[1]) break;
  rgba += mask[1]; mask += 2; }\<close>.
  The mask is the list of the \<open>uint16_t\<close> values from the pointer \<open>mask\<close> on, \<open>off\<close> is the
  distance of the pointer \<open>rgba\<close> from the start of the pixel buffer. A skip count
  \<open>mask[1]\<close> moves \<open>rgba\<close> by that many 16-bit elements. Reading the mask past its end or
  touching a pixel past the end of the buffer has no defined result (\<open>None\<close>).
  (\<open>mask\<close> is a constant of the word library; the variable is \<open>msk\<close>.)
\<close>

fun rle_loop ::
  "(u16 \<Rightarrow> nat \<Rightarrow> u16 list \<Rightarrow> u16 list) \<Rightarrow> u16 list \<Rightarrow> nat \<Rightarrow> u16 list \<Rightarrow> u16 list option" where
  "rle_loop body [] off rgba = None"
| "rle_loop body [m] off rgba = None"
| "rle_loop body (m # s # msk) off rgba =
    (if m \<noteq> 0 then
       (if off + 3 < length rgba
        then rle_loop body (s # msk) (off + 4) (body m off rgba)
        else None)
     else if s = 0 then Some rgba
     else rle_loop body msk (off + unat s) rgba)"

definition BlendMode_Normal_px ::
  "u16 \<Rightarrow> u16 \<Rightarrow> u16 \<Rightarrow> u16 \<Rightarrow> u16 \<Rightarrow> nat \<Rightarrow> u16 list \<Rightarrow> u16 list" where
  "BlendMode_Normal_px color_r color_g color_b opacity m p rgba =
    (let opa_a = ucast m * ucast opacity div 32768 :: u32;
         opa_b = 32768 - opa_a;
         rgba = rgba[p + 3 := ucast (opa_a + opa_b * ucast (rgba ! (p + 3)) div 32768)];
         rgba = rgba[p := ucast ((opa_a * ucast color_r + opa_b * ucast (rgba ! p)) div 32768)];
         rgba = rgba[p + 1 :=
                  ucast ((opa_a * ucast color_g + opa_b * ucast (rgba ! (p + 1))) div 32768)];
         rgba = rgba[p + 2 :=
                  ucast ((opa_a * ucast color_b + opa_b * ucast (rgba ! (p + 2))) div 32768)]
     in rgba)"

definition draw_dab_pixels_BlendMode_Normal ::
  "u16 list \<Rightarrow> u16 list \<Rightarrow> u16 \<Rightarrow> u16 \<Rightarrow> u16 \<Rightarrow> u16 \<Rightarrow> u16 list option" where
  "draw_dab_pixels_BlendMode_Normal msk rgba color_r color_g color_b opacity =
     rle_loop (BlendMode_Normal_px color_r color_g color_b opacity) msk 0 rgba"

definition BlendMode_Normal_and_Eraser_px ::
  "u16 \<Rightarrow> u16 \<Rightarrow> u16 \<Rightarrow> u16 \<Rightarrow> u16 \<Rightarrow> u16 \<Rightarrow> nat \<Rightarrow> u16 list \<Rightarrow> u16 list" where
  "BlendMode_Normal_and_Eraser_px color_r color_g color_b color_a opacity m p rgba =
    (let opa_a = ucast m * ucast opacity div 32768 :: u32;
         opa_b = 32768 - opa_a;
         opa_a = opa_a * ucast color_a div 32768;
         rgba = rgba[p + 3 := ucast (opa_a + opa_b * ucast (rgba ! (p + 3)) div 32768)];
         rgba = rgba[p := ucast ((opa_a * ucast color_r + opa_b * ucast (rgba ! p)) div 32768)];
         rgba = rgba[p + 1 :=
                  ucast ((opa_a * ucast color_g + opa_b * ucast (rgba ! (p + 1))) div 32768)];
         rgba = rgba[p + 2 :=
                  ucast ((opa_a * ucast color_b + opa_b * ucast (rgba ! (p + 2))) div 32768)]
     in rgba)"

definition draw_dab_pixels_BlendMode_Normal_and_Eraser ::
  "u16 list \<Rightarrow> u16 list \<Rightarrow> u16 \<Rightarrow> u16 \<Rightarrow> u16 \<Rightarrow> u16 \<Rightarrow> u16 \<Rightarrow> u16 list option" where
  "draw_dab_pixels_BlendMode_Normal_and_Eraser msk rgba color_r color_g color_b color_a opacity =
     rle_loop (BlendMode_Normal_and_Eraser_px color_r color_g color_b color_a opacity) msk 0 rgba"

definition BlendMode_LockAlpha_px ::
  "u16 \<Rightarrow> u16 \<Rightarrow> u16 \<Rightarrow> u16 \<Rightarrow> u16 \<Rightarrow> nat \<Rightarrow> u16 list \<Rightarrow> u16 list" where
  "BlendMode_LockAlpha_px color_r color_g color_b opacity m p rgba =
    (let opa_a = ucast m * ucast opacity div 32768 :: u32;
         opa_b = 32768 - opa_a;
         opa_a = opa_a * ucast (rgba ! (p + 3));
         opa_a = opa_a div 32768;
         rgba = rgba[p := ucast ((opa_a * ucast color_r + opa_b * ucast (rgba ! p)) div 32768)];
         rgba = rgba[p + 1 :=
                  ucast ((opa_a * ucast color_g + opa_b * ucast (rgba ! (p + 1))) div 32768)];
         rgba = rgba[p + 2 :=
                  ucast ((opa_a * ucast color_b + opa_b * ucast (rgba ! (p + 2))) div 32768)]
     in rgba)"

definition draw_dab_pixels_BlendMode_LockAlpha ::
  "u16 list \<Rightarrow> u16 list \<Rightarrow> u16 \<Rightarrow> u16 \<Rightarrow> u16 \<Rightarrow> u16 \<Rightarrow> u16 list option" where
  "draw_dab_pixels_BlendMode_LockAlpha msk rgba color_r color_g color_b opacity =
     rle_loop (BlendMode_LockAlpha_px color_r color_g color_b opacity) msk 0 rgba"

text \<open>
  A msk whose skip counts are whole pixels, that is multiples of the four 16-bit
  elements of a pixel.
\<close>

fun rle_aligned :: "u16 list \<Rightarrow> bool" where
  "rle_aligned (m # s # msk) =
    (if m \<noteq> 0 then rle_aligned (s # msk) else (unat s mod 4 = 0 \<and> (s = 0 \<or> rle_aligned msk)))"
| "rle_aligned _ = True"

text \<open>The invariant of the working encoding for the pixel at offset \<open>p\<close>.\<close>

definition premultiplied :: "u16 list \<Rightarrow> nat \<Rightarrow> bool" where
  "premultiplied rgba p \<longleftrightarrow>
     rgba ! p \<le> rgba ! (p + 3) \<and> rgba ! (p + 1) \<le> rgba ! (p + 3)
     \<and> rgba ! (p + 2) \<le> rgba ! (p + 3) \<and> rgba ! (p + 3) \<le> 32768"

section \<open>Properties\<close>

text \<open>
  C1. Whatever the source tile, the destination tile, the blend mode and the
  \<open>dst_has_alpha\<close> flag, a call of the compositing engine with an opacity whose fixed-point
  conversion is zero returns the destination tile unchanged, element for element.
\<close>

theorem tile_composite_data_zero_opacity:
  "to_fix15 src_opacity = 0 \<Longrightarrow>
   tile_composite_data to_fix15 composite_src_over src dst dst_has_alpha src_opacity = dst"
  by (simp add: tile_composite_data_def)

theorem tile_composite_data_zero_opacity_witness:
  "(\<lambda>x::int. if x > 32768 then 32768 else word_of_int x :: u16) 0 = 0 \<and>
   tile_composite_data (\<lambda>x::int. if x > 32768 then 32768 else word_of_int x)
     (\<lambda>a s d opac. map (\<lambda>v. v + opac) s) [1, 2, 3, 4] [5, 6, 7, 8] True 0 = [5, 6, 7, 8]"
  using tile_composite_data_zero_opacity
    [of "\<lambda>x::int. if x > 32768 then 32768 else word_of_int x" 0
        "\<lambda>a s d opac. map (\<lambda>v. v + opac) s" "[1, 2, 3, 4]" "[5, 6, 7, 8]" True]
  by simp

subsection \<open>Loops\<close>

lemma for_loop_length:
  "(\<And>i s. length (body i s) = length s) \<Longrightarrow> length (for_loop n body s) = length s"
  by (induction n) simp_all

lemma for_loop_invariant:
  "P s \<Longrightarrow> (\<And>i s. i < n \<Longrightarrow> P s \<Longrightarrow> P (body i s)) \<Longrightarrow> P (for_loop n body s)"
  by (induction n) simp_all

lemma for_loop_cong:
  "(\<And>i s. i < n \<Longrightarrow> body i s = body' i s) \<Longrightarrow> for_loop n body s = for_loop n body' s"
  by (induction n) simp_all

lemma for_loop_add:
  "for_loop (k + n) g s = for_loop n (\<lambda>x. g (k + x)) (for_loop k g s)"
  by (induction n) simp_all

lemma for_loop_nested:
  "for_loop m (\<lambda>y. for_loop n (f y)) s = for_loop (m * n) (\<lambda>p. f (p div n) (p mod n)) s"
proof (induction m)
  case 0
  show ?case by simp
next
  case (Suc m)
  have "for_loop (m * n + n) (\<lambda>p. f (p div n) (p mod n)) s
      = for_loop n (\<lambda>x. f ((m * n + x) div n) ((m * n + x) mod n))
          (for_loop (m * n) (\<lambda>p. f (p div n) (p mod n)) s)"
    by (rule for_loop_add)
  also have "\<dots> = for_loop n (f m) (for_loop (m * n) (\<lambda>p. f (p div n) (p mod n)) s)"
    by (rule for_loop_cong) simp
  finally show ?case using Suc by (simp add: add.commute)
qed

lemma for_loop_frame:
  assumes "P s"
    and "\<And>k s. k < n \<Longrightarrow> P s \<Longrightarrow> P (body k s)"
    and "\<And>k s. k < n \<Longrightarrow> P s \<Longrightarrow> body k s ! j = s ! j"
  shows "for_loop n body s ! j = s ! j"
  using assms(2,3)
proof (induction n)
  case 0
  show ?case by simp
next
  case (Suc n)
  have "P (for_loop n body s)"
    using assms(1) by (rule for_loop_invariant) (simp add: Suc.prems(1))
  then have "body n (for_loop n body s) ! j = for_loop n body s ! j"
    by (simp add: Suc.prems(2))
  moreover have "for_loop n body s ! j = s ! j"
    by (rule Suc.IH) (simp_all add: Suc.prems)
  ultimately show ?case by simp
qed

lemma for_loop_local:
  assumes i: "i < n"
    and P: "P s"
    and inv: "\<And>k s. k < n \<Longrightarrow> P s \<Longrightarrow> P (body k s)"
    and frame: "\<And>k s j. k < n \<Longrightarrow> k \<noteq> i \<Longrightarrow> P s \<Longrightarrow> j \<in> J \<Longrightarrow> body k s ! j = s ! j"
    and local: "\<And>s s' j. P s \<Longrightarrow> P s' \<Longrightarrow> (\<forall>j\<in>J. s ! j = s' ! j) \<Longrightarrow> j \<in> J
                  \<Longrightarrow> body i s ! j = body i s' ! j"
    and j: "j \<in> J"
  shows "for_loop n body s ! j = body i s ! j"
  using i inv frame
proof (induction n)
  case 0
  then show ?case by simp
next
  case (Suc n)
  have Pn: "P (for_loop n body s)"
    using P by (rule for_loop_invariant) (simp add: Suc.prems(2))
  show ?case
  proof (cases "i = n")
    case True
    have "\<forall>j\<in>J. for_loop n body s ! j = s ! j"
    proof
      fix j' assume j': "j' \<in> J"
      show "for_loop n body s ! j' = s ! j'"
        using P
      proof (rule for_loop_frame)
        show "\<And>k s. k < n \<Longrightarrow> P s \<Longrightarrow> P (body k s)" by (simp add: Suc.prems(2))
        show "\<And>k s. k < n \<Longrightarrow> P s \<Longrightarrow> body k s ! j' = s ! j'"
          using True j' by (simp add: Suc.prems(3))
      qed
    qed
    then have "body i (for_loop n body s) ! j = body i s ! j"
      using local [OF Pn P _ j] by blast
    then show ?thesis using True by simp
  next
    case False
    then have lt: "i < n" using Suc.prems(1) by simp
    have "body n (for_loop n body s) ! j = for_loop n body s ! j"
      using False Pn j by (simp add: Suc.prems(3))
    moreover have "for_loop n body s ! j = body i s ! j"
      using lt by (rule Suc.IH) (simp_all add: Suc.prems)
    ultimately show ?thesis by simp
  qed
qed

lemma for_loop2_local:
  assumes y: "y < m" and x: "x < n"
    and P: "P s"
    and inv: "\<And>y' x' s. y' < m \<Longrightarrow> x' < n \<Longrightarrow> P s \<Longrightarrow> P (f y' x' s)"
    and frame: "\<And>y' x' s j. y' < m \<Longrightarrow> x' < n \<Longrightarrow> (y', x') \<noteq> (y, x) \<Longrightarrow> P s \<Longrightarrow> j \<in> J
                  \<Longrightarrow> f y' x' s ! j = s ! j"
    and local: "\<And>s s' j. P s \<Longrightarrow> P s' \<Longrightarrow> (\<forall>j\<in>J. s ! j = s' ! j) \<Longrightarrow> j \<in> J
                  \<Longrightarrow> f y x s ! j = f y x s' ! j"
    and j: "j \<in> J"
  shows "for_loop m (\<lambda>y. for_loop n (f y)) s ! j = f y x s ! j"
proof -
  let ?g = "\<lambda>p. f (p div n) (p mod n)"
  have n: "0 < n" using x by simp
  have lt: "y * n + x < m * n"
  proof -
    have "y * n + x < y * n + n" using x by simp
    also have "\<dots> = Suc y * n" by simp
    also have "\<dots> \<le> m * n" using y by (intro mult_le_mono1) simp
    finally show ?thesis .
  qed
  have dm: "(y * n + x) div n = y" "(y * n + x) mod n = x" using x by simp_all
  have bound: "\<And>k. k < m * n \<Longrightarrow> k div n < m"
    using n by (simp add: less_mult_imp_div_less)
  have "for_loop (m * n) ?g s ! j = ?g (y * n + x) s ! j"
    using lt P
  proof (rule for_loop_local [where J = J])
    show "\<And>k s. k < m * n \<Longrightarrow> P s \<Longrightarrow> P (?g k s)"
      using n by (simp add: inv bound)
    show "\<And>k s j. k < m * n \<Longrightarrow> k \<noteq> y * n + x \<Longrightarrow> P s \<Longrightarrow> j \<in> J \<Longrightarrow> ?g k s ! j = s ! j"
    proof -
      fix k s j assume k: "k < m * n" "k \<noteq> y * n + x" and s: "P s" "j \<in> J"
      have "(k div n, k mod n) \<noteq> (y, x)"
      proof
        assume "(k div n, k mod n) = (y, x)"
        then have "k = y * n + x" using div_mult_mod_eq [of k n] by auto
        with k(2) show False by simp
      qed
      then show "?g k s ! j = s ! j"
        using k(1) n s by (intro frame) (simp_all add: bound)
    qed
    show "\<And>s s' j. P s \<Longrightarrow> P s' \<Longrightarrow> \<forall>j\<in>J. s ! j = s' ! j \<Longrightarrow> j \<in> J
        \<Longrightarrow> ?g (y * n + x) s ! j = ?g (y * n + x) s' ! j"
      unfolding dm by (rule local)
    show "j \<in> J" by (rule j)
  qed
  then show ?thesis using x by (simp add: for_loop_nested)
qed

lemma for_loop_3: "for_loop 3 body s = body 2 (body 1 (body 0 s))"
  by (simp add: numeral_3_eq_3 numeral_2_eq_2)

lemma strokemap_px_same: "strokemap_px a a p = 0"
proof -
  have "0 \<le> MAX_int (uint (a ! (p + 3))) (uint (a ! (p + 3))) div 16"
    by (simp add: MAX_int_def pos_imp_zdiv_nonneg_iff)
  then show ?thesis
    by (simp add: strokemap_px_def for_loop_3 Let_def)
qed

lemma cell_index_inj:
  fixes n :: nat
  assumes "x < n" "x' < n" "y * n + x = y' * n + x'"
  shows "y = y' \<and> x = x'"
proof -
  have "(y * n + x) div n = y" "(y' * n + x') div n = y'"
       "(y * n + x) mod n = x" "(y' * n + x') mod n = x'"
    using assms(1,2) by simp_all
  then show ?thesis using assms(3) by metis
qed

lemma strokemap_loop_nth:
  assumes len: "length res = N * N" and y: "y < N" and x: "x < N"
  shows "for_loop N (\<lambda>y. for_loop N (\<lambda>x res. res[y * N + x := strokemap_px a b (4 * (y * N + x))])) res
           ! (y * N + x) = strokemap_px a b (4 * (y * N + x))"
proof -
  let ?f = "\<lambda>y x (res :: u8 list). res[y * N + x := strokemap_px a b (4 * (y * N + x))]"
  have lt: "y * N + x < N * N"
  proof -
    have "y * N + x < Suc y * N" using x by simp
    also have "\<dots> \<le> N * N" using y by (intro mult_le_mono1) simp
    finally show ?thesis .
  qed
  have "for_loop N (\<lambda>y. for_loop N (?f y)) res ! (y * N + x) = ?f y x res ! (y * N + x)"
    using y x
  proof (rule for_loop2_local [where P = "\<lambda>s. length s = N * N" and J = "{y * N + x}"])
    show "length res = N * N" by (rule len)
    show "\<And>y' x' s. y' < N \<Longrightarrow> x' < N \<Longrightarrow> length s = N * N \<Longrightarrow> length (?f y' x' s) = N * N"
      by simp
    show "\<And>y' x' s j. y' < N \<Longrightarrow> x' < N \<Longrightarrow> (y', x') \<noteq> (y, x) \<Longrightarrow> length s = N * N
        \<Longrightarrow> j \<in> {y * N + x} \<Longrightarrow> ?f y' x' s ! j = s ! j"
    proof -
      fix y' x' and s :: "u8 list" and j
      assume a: "x' < N" "(y', x') \<noteq> (y, x)" "j \<in> {y * N + x}"
      have "y' * N + x' \<noteq> y * N + x"
        using cell_index_inj [OF a(1) x, of y' y] a(2) by auto
      then show "?f y' x' s ! j = s ! j" using a(3) by simp
    qed
    show "\<And>s s' j. length s = N * N \<Longrightarrow> length s' = N * N \<Longrightarrow> \<forall>j\<in>{y * N + x}. s ! j = s' ! j
        \<Longrightarrow> j \<in> {y * N + x} \<Longrightarrow> ?f y x s ! j = ?f y x s' ! j"
      using lt by simp
    show "y * N + x \<in> {y * N + x}" by simp
  qed
  then show ?thesis using lt len by simp
qed

lemma strokemap_loop_length:
  "length (for_loop N (\<lambda>y. for_loop N (\<lambda>x res. res[y * N + x := strokemap_px a b (4 * (y * N + x))])) res)
     = length (res :: u8 list)"
  by (intro for_loop_length) simp

text \<open>
  C8. When the two snapshots are the same tile, the stroke-change detector returns an
  output in which every pixel is 0.
\<close>

theorem strokemap_identical_snapshots:
  assumes "length a = tile_len N" and "length res = N * N"
  shows "\<exists>res'. tile_perceptual_change_strokemap N a a res = Some res'
           \<and> length res' = N * N \<and> (\<forall>i < N * N. res' ! i = 0)"
proof -
  let ?r = "for_loop N (\<lambda>y. for_loop N (\<lambda>x res. res[y * N + x := strokemap_px a a (4 * (y * N + x))])) res"
  have "?r ! i = 0" if i: "i < N * N" for i
  proof -
    have N: "0 < N" using i by (cases N) simp_all
    have y: "i div N < N" using i N by (simp add: less_mult_imp_div_less)
    have x: "i mod N < N" using N by simp
    have "?r ! (i div N * N + i mod N) = strokemap_px a a (4 * (i div N * N + i mod N))"
      using assms(2) y x by (rule strokemap_loop_nth)
    then show ?thesis by (simp add: strokemap_px_same)
  qed
  moreover have "length ?r = N * N"
    unfolding strokemap_loop_length by (rule assms(2))
  ultimately show ?thesis
    using assms by (simp add: tile_perceptual_change_strokemap_def)
qed

theorem strokemap_identical_snapshots_witness:
  "length [100, 200, 300, 400 :: u16] = tile_len 1 \<and> length [7 :: u8] = 1 * 1
   \<and> tile_perceptual_change_strokemap 1 [100, 200, 300, 400] [100, 200, 300, 400] [7] = Some [0]"
proof -
  have l: "length [100, 200, 300, 400 :: u16] = tile_len 1" by (simp add: tile_len_def)
  have r: "length [7 :: u8] = 1 * 1" by simp
  obtain res' where "tile_perceptual_change_strokemap 1 [100, 200, 300, 400] [100, 200, 300, 400] [7] = Some res'"
    "length res' = 1 * 1" "\<forall>i < 1 * 1. res' ! i = 0"
    using strokemap_identical_snapshots [OF l r] by blast
  moreover from this have "res' = [0]"
    by (cases res') simp_all
  ultimately show ?thesis using l by simp
qed

subsection \<open>Words as numbers\<close>

lemma unat_u16_lt: "unat (x::u16) < 65536"
  using unsigned_less [of x, where 'a=nat] by simp

lemma unat_u8_lt: "unat (x::u8) < 256"
  using unsigned_less [of x, where 'a=nat] by simp

lemma unat_u16_u32: "unat (ucast (x::u16) :: u32) = unat x"
proof -
  have "unat x < 2 ^ 32" using unat_u16_lt [of x] by simp
  then show ?thesis by (simp add: unsigned_ucast_eq take_bit_nat_eq_self)
qed

lemma unat_u8_u32: "unat (ucast (x::u8) :: u32) = unat x"
proof -
  have "unat x < 2 ^ 32" using unat_u8_lt [of x] by simp
  then show ?thesis by (simp add: unsigned_ucast_eq take_bit_nat_eq_self)
qed

lemma unat_u32_u8: "unat (ucast (x::u32) :: u8) = unat x mod 256"
  by (simp add: unsigned_ucast_eq take_bit_eq_mod)

lemma unat_u32_u16: "unat (ucast (x::u32) :: u16) = unat x mod 65536"
  by (simp add: unsigned_ucast_eq take_bit_eq_mod)

lemma unat_u32_mult: "unat a * unat b < 4294967296 \<Longrightarrow> unat (a * b :: u32) = unat a * unat b"
  using unat_mult_lem [of a b] by simp

lemma unat_u32_add: "unat a + unat b < 4294967296 \<Longrightarrow> unat (a + b :: u32) = unat a + unat b"
  using unat_add_lem [of a b] by simp

lemma unat_u32_sub: "unat b \<le> unat a \<Longrightarrow> unat (a - b :: u32) = unat a - unat b"
  by (simp add: unat_sub word_le_nat_alt)

subsection \<open>Pixel offsets\<close>

lemma pixel_offset: "q div N * (4 * N) + 4 * (q mod N) = 4 * (q::nat)"
proof -
  have "4 * (q div N * N + q mod N) = 4 * (q div N * N) + 4 * (q mod N)"
    by (rule distrib_left)
  moreover have "4 * (q div N * N) = q div N * (4 * N)"
    by (simp only: mult.left_commute mult.commute)
  moreover have "q div N * N + q mod N = q"
    by (rule div_mult_mod_eq)
  ultimately show ?thesis by (simp only:)
qed

lemma for_loop_counter:
  assumes "\<And>i c d. body i (c, d) = (c + k, g i c d)"
  shows "for_loop n body (c0, d0) = (c0 + k * n, for_loop n (\<lambda>i. g i (c0 + k * i)) d0)"
  by (induction n) (simp_all add: assms)

lemma for_loop_tile:
  "for_loop N (\<lambda>y. for_loop N (\<lambda>x. f (y * (4 * N) + 4 * x))) s = for_loop (N * N) (\<lambda>q. f (4 * q)) s"
proof -
  have "for_loop N (\<lambda>y. for_loop N (\<lambda>x. f (y * (4 * N) + 4 * x))) s
      = for_loop (N * N) (\<lambda>q. f (q div N * (4 * N) + 4 * (q mod N))) s"
    by (rule for_loop_nested)
  also have "\<dots> = for_loop (N * N) (\<lambda>q. f (4 * q)) s"
    by (simp add: pixel_offset)
  finally show ?thesis .
qed

text \<open>
  A loop whose iteration \<open>q\<close> rewrites the four elements of pixel \<open>q\<close> from those four
  elements alone leaves, in pixel \<open>p\<close>, what iteration \<open>p\<close> alone produces. \<open>P\<close> is an
  invariant of the buffer that the iterations may rely on.
\<close>

lemma pixel_loop_local:
  assumes p: "p < n" and c: "c < 4" and P: "P d"
    and inv: "\<And>q d. q < n \<Longrightarrow> P d \<Longrightarrow> P (body q d)"
    and frame: "\<And>q d j. q < n \<Longrightarrow> P d \<Longrightarrow> j < 4 * q \<or> 4 * q + 4 \<le> j
                  \<Longrightarrow> body q d ! j = d ! j"
    and local: "\<And>d d' c. P d \<Longrightarrow> P d'
                  \<Longrightarrow> (\<forall>k<4. d ! (4 * p + k) = d' ! (4 * p + k)) \<Longrightarrow> c < 4
                  \<Longrightarrow> body p d ! (4 * p + c) = body p d' ! (4 * p + c)"
  shows "for_loop n body d ! (4 * p + c) = body p d ! (4 * p + c)"
  using p P
proof (rule for_loop_local [where P = P and J = "{4 * p ..< 4 * p + 4}"])
  show "\<And>k s. k < n \<Longrightarrow> P s \<Longrightarrow> P (body k s)" by (rule inv)
  show "\<And>k s j. k < n \<Longrightarrow> k \<noteq> p \<Longrightarrow> P s \<Longrightarrow> j \<in> {4 * p..<4 * p + 4}
      \<Longrightarrow> body k s ! j = s ! j"
    by (rule frame) auto
  show "4 * p + c \<in> {4 * p..<4 * p + 4}" using c by simp
  show "body p s ! j = body p s' ! j"
    if a: "P s" "P s'" "\<forall>j\<in>{4 * p..<4 * p + 4}. s ! j = s' ! j"
       "j \<in> {4 * p..<4 * p + 4}" for s s' j
  proof -
    obtain c' where c': "j = 4 * p + c'" "c' < 4"
      using a(4) by (auto simp: le_iff_add)
    have "\<forall>k<4. s ! (4 * p + k) = s' ! (4 * p + k)" using a(3) by simp
    then show ?thesis unfolding c'(1) using a(1,2) c'(2) by (intro local)
  qed
qed

lemma pixel_loop_nth:
  assumes "p < n" and "c < 4" and "length d = L"
    and "\<And>q d. q < n \<Longrightarrow> length d = L \<Longrightarrow> length (body q d) = L"
    and "\<And>q d j. q < n \<Longrightarrow> length d = L \<Longrightarrow> j < 4 * q \<or> 4 * q + 4 \<le> j
           \<Longrightarrow> body q d ! j = d ! j"
    and "\<And>d d' c. length d = L \<Longrightarrow> length d' = L
           \<Longrightarrow> (\<forall>k<4. d ! (4 * p + k) = d' ! (4 * p + k)) \<Longrightarrow> c < 4
           \<Longrightarrow> body p d ! (4 * p + c) = body p d' ! (4 * p + c)"
  shows "for_loop n body d ! (4 * p + c) = body p d ! (4 * p + c)"
  using assms by (rule pixel_loop_local [where P = "\<lambda>d. length d = L"])

subsection \<open>The dithering noise table\<close>

lemma unat_of_nat_u16: "n < 65536 \<Longrightarrow> unat (word_of_nat n :: u16) = n"
  by (simp add: unat_of_nat)

lemma noise_value_band: "1024 \<le> unat (noise_value r) \<and> unat (noise_value r) \<le> 31743"
proof -
  have "r mod 32768 < 32768" by simp
  then have "(r mod 32768) * 240 div 256 \<le> 30719" by simp
  then have b: "(r mod 32768) * 240 div 256 + 32768 * 8 div 256 \<le> 31743" by simp
  have "unat (noise_value r) = (r mod 32768) * 240 div 256 + 32768 * 8 div 256"
    unfolding noise_value_def using b by (intro unat_of_nat_u16) linarith
  then show ?thesis using b by simp
qed

lemma noise_fill_nth:
  "i < n \<Longrightarrow> n \<le> length t \<Longrightarrow> for_loop n (\<lambda>i t. t[i := noise_value (rnd i)]) t ! i = noise_value (rnd i)"
proof (induction n)
  case 0
  then show ?case by simp
next
  case (Suc n)
  have len: "length (for_loop n (\<lambda>i t. t[i := noise_value (rnd i)]) t) = length t"
    by (rule for_loop_length) simp
  show ?case
  proof (cases "i = n")
    case True
    then show ?thesis using Suc.prems len by simp
  next
    case False
    then show ?thesis using Suc by simp
  qed
qed

lemma precalculated_noise:
  assumes "\<not> have_noise st" and "length (dithering_noise st) = dithering_noise_size"
  shows "length (dithering_noise (precalculate_dithering_noise_if_required rnd st)) = dithering_noise_size"
    and "\<forall>v \<in> set (dithering_noise (precalculate_dithering_noise_if_required rnd st)).
           1024 \<le> unat v \<and> unat v \<le> 31743"
proof -
  let ?t = "for_loop dithering_noise_size (\<lambda>i t. t[i := noise_value (rnd i)]) (dithering_noise st)"
  have t: "dithering_noise (precalculate_dithering_noise_if_required rnd st) = ?t"
    using assms(1) by (simp add: precalculate_dithering_noise_if_required_def)
  have len: "length ?t = dithering_noise_size"
    using assms(2) by (subst for_loop_length) simp_all
  show "length (dithering_noise (precalculate_dithering_noise_if_required rnd st)) = dithering_noise_size"
    using t len by simp
  have "1024 \<le> unat (?t ! i) \<and> unat (?t ! i) \<le> 31743" if "i < dithering_noise_size" for i
    using noise_fill_nth [OF that, of "dithering_noise st" rnd] assms(2) noise_value_band by simp
  then show "\<forall>v \<in> set (dithering_noise (precalculate_dithering_noise_if_required rnd st)).
           1024 \<le> unat v \<and> unat v \<le> 31743"
    unfolding t using len by (auto simp: in_set_conv_nth)
qed

text \<open>
  The table that the first conversion of a process generates lies inside the documented
  band, whatever \<open>rand()\<close> returns.
\<close>

lemma initial_noise_in_band:
  "noise_in_band (dithering_noise (precalculate_dithering_noise_if_required rnd initial_noise_state))"
  and "length (dithering_noise (precalculate_dithering_noise_if_required rnd initial_noise_state))
         = dithering_noise_size"
proof -
  have i: "\<not> have_noise initial_noise_state"
    "length (dithering_noise initial_noise_state) = dithering_noise_size"
    by (simp_all add: initial_noise_state_def)
  show "length (dithering_noise (precalculate_dithering_noise_if_required rnd initial_noise_state))
         = dithering_noise_size"
    using i by (rule precalculated_noise(1))
  show "noise_in_band (dithering_noise (precalculate_dithering_noise_if_required rnd initial_noise_state))"
    unfolding noise_in_band_def using precalculated_noise(2) [OF i, of rnd] by fastforce
qed

subsection \<open>Conversion to 8 bits\<close>

lemma rgba16_to_rgba8_px_fst:
  "rgba16_to_rgba8_px noise src sp dp (idx, dst)
     = (idx + 2, snd (rgba16_to_rgba8_px noise src sp dp (idx, dst)))"
  by (simp add: rgba16_to_rgba8_px_def Let_def)

lemma rgba16_to_rgba8_px_length:
  "length (snd (rgba16_to_rgba8_px noise src sp dp (idx, dst))) = length dst"
  by (simp add: rgba16_to_rgba8_px_def Let_def)

lemma rgba16_to_rgba8_px_frame:
  "j < dp \<or> dp + 4 \<le> j \<Longrightarrow> snd (rgba16_to_rgba8_px noise src sp dp (idx, dst)) ! j = dst ! j"
  by (auto simp: rgba16_to_rgba8_px_def Let_def)

lemma rgba16_to_rgba8_px_local:
  "length dst = length dst' \<Longrightarrow> dp + 3 < length dst \<Longrightarrow> c < 4 \<Longrightarrow>
   snd (rgba16_to_rgba8_px noise src sp dp (idx, dst)) ! (dp + c)
     = snd (rgba16_to_rgba8_px noise src sp dp (idx, dst')) ! (dp + c)"
  by (simp add: rgba16_to_rgba8_px_def Let_def nth_list_update)

lemma rgba16_to_rgba8_loop_nth:
  assumes len: "length dst = tile_len N" and p: "p < N * N" and c: "c < 4"
  shows "snd (for_loop N (\<lambda>y. for_loop N (\<lambda>x.
            rgba16_to_rgba8_px noise src (y * (4 * N) + 4 * x) (y * (4 * N) + 4 * x))) (0, dst))
           ! (4 * p + c)
         = snd (rgba16_to_rgba8_px noise src (4 * p) (4 * p) (2 * p, dst)) ! (4 * p + c)"
    and "length (snd (for_loop N (\<lambda>y. for_loop N (\<lambda>x.
            rgba16_to_rgba8_px noise src (y * (4 * N) + 4 * x) (y * (4 * N) + 4 * x))) (0, dst)))
         = tile_len N"
proof -
  let ?g = "\<lambda>q idx d. snd (rgba16_to_rgba8_px noise src (4 * q) (4 * q) (idx, d))"
  have flat: "for_loop N (\<lambda>y. for_loop N (\<lambda>x.
            rgba16_to_rgba8_px noise src (y * (4 * N) + 4 * x) (y * (4 * N) + 4 * x))) (0, dst)
      = for_loop (N * N) (\<lambda>q. rgba16_to_rgba8_px noise src (4 * q) (4 * q)) (0, dst)"
    by (rule for_loop_tile [where f = "\<lambda>k. rgba16_to_rgba8_px noise src k k"])
  also have "\<dots> = (0 + 2 * (N * N), for_loop (N * N) (\<lambda>q. ?g q (0 + 2 * q)) dst)"
    by (rule for_loop_counter) (rule rgba16_to_rgba8_px_fst)
  finally have eq: "snd (for_loop N (\<lambda>y. for_loop N (\<lambda>x.
            rgba16_to_rgba8_px noise src (y * (4 * N) + 4 * x) (y * (4 * N) + 4 * x))) (0, dst))
      = for_loop (N * N) (\<lambda>q. ?g q (2 * q)) dst"
    by simp
  have "for_loop (N * N) (\<lambda>q. ?g q (2 * q)) dst ! (4 * p + c) = ?g p (2 * p) dst ! (4 * p + c)"
    using p c len
  proof (rule pixel_loop_nth)
    show "\<And>q d. length d = tile_len N \<Longrightarrow> length (?g q (2 * q) d) = tile_len N"
      by (simp add: rgba16_to_rgba8_px_length)
    show "\<And>q d j. j < 4 * q \<or> 4 * q + 4 \<le> j \<Longrightarrow> ?g q (2 * q) d ! j = d ! j"
      by (rule rgba16_to_rgba8_px_frame)
    show "\<And>d d' c. length d = tile_len N \<Longrightarrow> length d' = tile_len N \<Longrightarrow> c < 4
        \<Longrightarrow> ?g p (2 * p) d ! (4 * p + c) = ?g p (2 * p) d' ! (4 * p + c)"
      using p by (intro rgba16_to_rgba8_px_local) (simp_all add: tile_len_def)
  qed
  then show "snd (for_loop N (\<lambda>y. for_loop N (\<lambda>x.
            rgba16_to_rgba8_px noise src (y * (4 * N) + 4 * x) (y * (4 * N) + 4 * x))) (0, dst))
           ! (4 * p + c)
         = snd (rgba16_to_rgba8_px noise src (4 * p) (4 * p) (2 * p, dst)) ! (4 * p + c)"
    unfolding eq .
  have "length (for_loop (N * N) (\<lambda>q. ?g q (2 * q)) dst) = length dst"
    by (rule for_loop_length) (rule rgba16_to_rgba8_px_length)
  then show "length (snd (for_loop N (\<lambda>y. for_loop N (\<lambda>x.
            rgba16_to_rgba8_px noise src (y * (4 * N) + 4 * x) (y * (4 * N) + 4 * x))) (0, dst)))
         = tile_len N"
    unfolding eq using len by simp
qed

lemma noise_div_zero:
  assumes "unat (v::u16) \<le> 31784"
  shows "(ucast v :: u32) div 32768 = 0"
proof -
  have "unat ((ucast v :: u32) div 32768) = unat v div 32768"
    by (simp add: unat_div unat_u16_u32)
  also have "\<dots> = 0" using assms by simp
  finally show ?thesis by (simp add: word_unat_eq_iff)
qed

lemma rgba16_to_rgba8_px_transparent:
  assumes "src ! (sp + 3) = 0" and "unat (noise ! idx) \<le> 31784" and "dp + 3 < length dst"
  shows "snd (rgba16_to_rgba8_px noise src sp dp (idx, dst)) ! dp = 0"
    and "snd (rgba16_to_rgba8_px noise src sp dp (idx, dst)) ! (dp + 1) = 0"
    and "snd (rgba16_to_rgba8_px noise src sp dp (idx, dst)) ! (dp + 2) = 0"
  using assms by (simp_all add: rgba16_to_rgba8_px_def Let_def noise_div_zero)

text \<open>
  C9. In the conversion from 16-bit premultiplied to 8-bit straight pixels, a source
  pixel whose alpha is 0 yields the colour channels 0, whatever the noise table holds
  within its documented band: the division by alpha is not performed.
\<close>

theorem rgba16_to_rgba8_zero_alpha:
  assumes "length src = tile_len N" and "length dst = tile_len N"
    and "2 * (N * N) \<le> length (dithering_noise (precalculate_dithering_noise_if_required rnd st))"
    and "noise_in_band (dithering_noise (precalculate_dithering_noise_if_required rnd st))"
    and "p < N * N" and "src ! (4 * p + 3) = 0"
  shows "\<exists>st' dst'. tile_convert_rgba16_to_rgba8 N rnd st src dst = Some (st', dst')
           \<and> dst' ! (4 * p) = 0 \<and> dst' ! (4 * p + 1) = 0 \<and> dst' ! (4 * p + 2) = 0"
proof -
  let ?noise = "dithering_noise (precalculate_dithering_noise_if_required rnd st)"
  let ?r = "snd (for_loop N (\<lambda>y. for_loop N (\<lambda>x.
            rgba16_to_rgba8_px ?noise src (y * (4 * N) + 4 * x) (y * (4 * N) + 4 * x))) (0, dst))"
  have "?noise ! (2 * p) \<in> set ?noise" using assms(3,5) by (intro nth_mem) simp
  then have n: "unat (?noise ! (2 * p)) \<le> 31784"
    using assms(4) by (simp add: noise_in_band_def)
  have dp: "4 * p + 3 < length dst" using assms(2,5) by (simp add: tile_len_def)
  have "?r ! (4 * p + c) = 0" if c3: "c < 3" for c
  proof -
    have "?r ! (4 * p + c) = snd (rgba16_to_rgba8_px ?noise src (4 * p) (4 * p) (2 * p, dst)) ! (4 * p + c)"
      using assms(2,5) c3 by (intro rgba16_to_rgba8_loop_nth) simp_all
    also have "\<dots> = 0"
    proof -
      consider "c = 0" | "c = 1" | "c = 2" using c3 by linarith
      then show ?thesis
        using rgba16_to_rgba8_px_transparent [OF assms(6) n dp] by cases simp_all
    qed
    finally show ?thesis .
  qed
  from this [of 0] this [of 1] this [of 2]
  have "?r ! (4 * p) = 0 \<and> ?r ! (4 * p + 1) = 0 \<and> ?r ! (4 * p + 2) = 0" by simp
  then show ?thesis
    using assms(1,2,3) by (simp add: tile_convert_rgba16_to_rgba8_def Let_def)
qed

theorem rgba16_to_rgba8_zero_alpha_witness:
  "tile_convert_rgba16_to_rgba8 1 (\<lambda>i. 0) \<lparr>have_noise = True, dithering_noise = [1024, 31743]\<rparr>
      [0, 0, 0, 0] [9, 9, 9, 9]
    = Some (\<lparr>have_noise = True, dithering_noise = [1024, 31743]\<rparr>, [0, 0, 0, 0])"
proof -
  let ?st = "\<lparr>have_noise = True, dithering_noise = [1024, 31743 :: u16]\<rparr>"
  have pre: "precalculate_dithering_noise_if_required (\<lambda>i. 0) ?st = ?st"
    by (simp add: precalculate_dithering_noise_if_required_def)
  have "\<exists>st' dst'. tile_convert_rgba16_to_rgba8 1 (\<lambda>i. 0) ?st [0, 0, 0, 0] [9, 9, 9, 9] = Some (st', dst')
           \<and> dst' ! (4 * 0) = 0 \<and> dst' ! (4 * 0 + 1) = 0 \<and> dst' ! (4 * 0 + 2) = 0"
    by (rule rgba16_to_rgba8_zero_alpha) (simp_all add: pre tile_len_def noise_in_band_def)
  then show ?thesis
    by (simp add: tile_convert_rgba16_to_rgba8_def pre tile_len_def rgba16_to_rgba8_px_def Let_def)
qed

subsection \<open>Brush dabs\<close>

lemma unat_u16_prod: "unat (x::u16) * unat (y::u16) < 4294967296"
proof -
  have "unat x \<le> 65535" "unat y \<le> 65535"
    using unat_u16_lt [of x] unat_u16_lt [of y] by simp_all
  then have "unat x * unat y \<le> 65535 * 65535" by (rule mult_le_mono)
  then show ?thesis by simp
qed

lemma unat_opa_a:
  "unat (ucast (m::u16) * ucast (opacity::u16) div 32768 :: u32) = unat m * unat opacity div 32768"
  using unat_u16_prod [of m opacity] by (simp add: unat_div unat_u32_mult unat_u16_u32)

lemma opa_a_full_alpha:
  "(ucast (m::u16) * ucast (opacity::u16) div 32768 :: u32) * 32768 div 32768
     = ucast m * ucast opacity div 32768"
proof -
  let ?x = "ucast m * ucast opacity div 32768 :: u32"
  have "unat ?x * 32768 \<le> unat m * unat opacity"
    unfolding unat_opa_a by simp
  also have "\<dots> < 4294967296" by (rule unat_u16_prod)
  finally have "unat ?x * unat (32768::u32) < 2 ^ LENGTH(32)" by simp
  then show "?x * 32768 div 32768 = ?x"
    by (intro word_div_mult) simp_all
qed

lemma Normal_and_Eraser_px_full_alpha:
  "BlendMode_Normal_and_Eraser_px color_r color_g color_b 32768 opacity
     = BlendMode_Normal_px color_r color_g color_b opacity"
  by (intro ext)
    (simp add: BlendMode_Normal_and_Eraser_px_def BlendMode_Normal_px_def Let_def opa_a_full_alpha)

text \<open>
  C7. With the source alpha \<open>color_a = 32768\<close> (that is 1.0) the normal-and-eraser dab
  gives the same result as the normal dab, for every mask, pixel buffer, colour and
  opacity.
\<close>

theorem Normal_and_Eraser_full_alpha_is_Normal:
  "draw_dab_pixels_BlendMode_Normal_and_Eraser msk rgba color_r color_g color_b 32768 opacity
     = draw_dab_pixels_BlendMode_Normal msk rgba color_r color_g color_b opacity"
  by (simp only: draw_dab_pixels_BlendMode_Normal_and_Eraser_def
      draw_dab_pixels_BlendMode_Normal_def Normal_and_Eraser_px_full_alpha)

lemma rle_loop_length:
  assumes "\<And>m p r. length (body m p r) = length r"
  shows "rle_loop body msk off rgba = Some rgba' \<Longrightarrow> length rgba' = length rgba"
  using assms
  by (induction body msk off rgba rule: rle_loop.induct)
    (auto split: if_splits)

text \<open>
  With whole-pixel skip counts the pointer \<open>rgba\<close> stays on pixel boundaries, and a
  property that the pixel operation maintains holds after the traversal.
\<close>

lemma rle_loop_invariant:
  assumes step: "\<And>m p r. P r \<Longrightarrow> Q m \<Longrightarrow> p mod 4 = 0 \<Longrightarrow> p + 3 < length r \<Longrightarrow> P (body m p r)"
  shows "rle_aligned msk \<Longrightarrow> off mod 4 = 0 \<Longrightarrow> P rgba
           \<Longrightarrow> rle_loop body msk off rgba = Some rgba' \<Longrightarrow> \<forall>m \<in> set msk. Q m \<Longrightarrow> P rgba'"
  using step
proof (induction body msk off rgba rule: rle_loop.induct)
  case (1 body off rgba)
  then show ?case by simp
next
  case (2 body m off rgba)
  then show ?case by simp
next
  case (3 body m s msk off rgba)
  show ?case
  proof (cases "m = 0")
    case True
    show ?thesis
    proof (cases "s = 0")
      case True
      with \<open>m = 0\<close> "3.prems" show ?thesis by simp
    next
      case False
      have "unat s mod 4 = 0" using "3.prems"(1) \<open>m = 0\<close> by simp
      then have "(off + unat s) mod 4 = 0"
        using "3.prems"(2) by presburger
      moreover have "rle_aligned msk" using "3.prems"(1) \<open>m = 0\<close> False by simp
      moreover have "rle_loop body msk (off + unat s) rgba = Some rgba'"
        using "3.prems"(4) \<open>m = 0\<close> False by simp
      ultimately show ?thesis
        using "3.IH"(2) [OF _ False] \<open>m = 0\<close> "3.prems"(3,5,6) by simp
    qed
  next
    case False
    then have inb: "off + 3 < length rgba"
      using "3.prems"(4) by (simp split: if_splits)
    have "(off + 4) mod 4 = 0" using "3.prems"(2) by simp
    moreover have "P (body m off rgba)"
      using "3.prems"(2,3,5) False inb by (intro "3.prems"(6)) simp_all
    moreover have "rle_aligned (s # msk)" using "3.prems"(1) False by simp
    moreover have "rle_loop body (s # msk) (off + 4) (body m off rgba) = Some rgba'"
      using "3.prems"(4) False inb by simp
    ultimately show ?thesis
      using "3.IH"(1) [OF False inb] "3.prems"(5,6) by simp
  qed
qed

lemma LockAlpha_px_length:
  "length (BlendMode_LockAlpha_px color_r color_g color_b opacity m p r) = length r"
  by (simp add: BlendMode_LockAlpha_px_def Let_def)

lemma LockAlpha_px_frame:
  "j \<noteq> p \<Longrightarrow> j \<noteq> p + 1 \<Longrightarrow> j \<noteq> p + 2
    \<Longrightarrow> BlendMode_LockAlpha_px color_r color_g color_b opacity m p r ! j = r ! j"
  by (simp add: BlendMode_LockAlpha_px_def Let_def)

lemma LockAlpha_px_alpha:
  assumes "p mod 4 = 0"
  shows "BlendMode_LockAlpha_px color_r color_g color_b opacity m p r ! (4 * i + 3) = r ! (4 * i + 3)"
proof -
  have "(4 * i + 3) mod 4 = 3" by presburger
  then have "4 * i + 3 \<noteq> p" "4 * i + 3 \<noteq> p + 1" "4 * i + 3 \<noteq> p + 2"
    using assms by presburger+
  then show ?thesis by (rule LockAlpha_px_frame)
qed

lemma fix15_prod_le: "x \<le> 32768 \<Longrightarrow> y \<le> 32768 \<Longrightarrow> x * y \<le> (1073741824::nat)"
proof -
  assume "x \<le> 32768" "y \<le> 32768"
  then have "x * y \<le> 32768 * 32768" by (rule mult_le_mono)
  then show ?thesis by simp
qed

lemma blend_nat:
  fixes A a x c :: nat
  assumes "A \<le> 32768" "a \<le> 32768" "x \<le> a" "c \<le> 32768"
  shows "(A * c + (32768 - A) * x) div 32768 \<le> A + (32768 - A) * a div 32768"
    and "A + (32768 - A) * a div 32768 \<le> 32768"
proof -
  have "A * c \<le> A * 32768" using assms(4) by (rule mult_le_mono2)
  moreover have "(32768 - A) * x \<le> (32768 - A) * a" using assms(3) by (rule mult_le_mono2)
  ultimately have "A * c + (32768 - A) * x \<le> A * 32768 + (32768 - A) * a" by (rule add_mono)
  then have "(A * c + (32768 - A) * x) div 32768 \<le> (A * 32768 + (32768 - A) * a) div 32768"
    by (rule div_le_mono)
  also have "\<dots> = A + (32768 - A) * a div 32768" by simp
  finally show "(A * c + (32768 - A) * x) div 32768 \<le> A + (32768 - A) * a div 32768" .
  have "(32768 - A) * a \<le> (32768 - A) * 32768" using assms(2) by (rule mult_le_mono2)
  then have "(32768 - A) * a div 32768 \<le> (32768 - A) * 32768 div 32768" by (rule div_le_mono)
  then show "A + (32768 - A) * a div 32768 \<le> 32768" using assms(1) by simp
qed

text \<open>The values that the normal dab stores, as natural numbers, when nothing overflows.\<close>

lemma Normal_alpha_unat:
  fixes m opacity a :: u16
  assumes "unat m \<le> 32768" "unat opacity \<le> 32768" "unat a \<le> 32768"
  shows "unat (ucast ((ucast m * ucast opacity div 32768 :: u32)
                 + (32768 - ucast m * ucast opacity div 32768) * ucast a div 32768) :: u16)
         = unat m * unat opacity div 32768
           + (32768 - unat m * unat opacity div 32768) * unat a div 32768"
proof -
  let ?A = "unat m * unat opacity div 32768"
  let ?opa_a = "ucast m * ucast opacity div 32768 :: u32"
  have "unat m * unat opacity \<le> 1073741824" using assms(1,2) by (rule fix15_prod_le)
  then have A: "?A \<le> 32768" by simp
  have a: "unat ?opa_a = ?A" by (rule unat_opa_a)
  have b: "unat (32768 - ?opa_a) = 32768 - ?A"
    using A by (subst unat_u32_sub) (simp_all add: a)
  have "(32768 - ?A) * unat a \<le> 1073741824" using assms(3) by (intro fix15_prod_le) simp_all
  then have c: "unat ((32768 - ?opa_a) * ucast a) = (32768 - ?A) * unat a"
    by (subst unat_u32_mult) (simp_all add: b unat_u16_u32)
  have le: "?A + (32768 - ?A) * unat a div 32768 \<le> 32768"
    using A assms(3) by (intro blend_nat(2) [where x = 0 and c = 0]) simp_all
  have c2: "unat ((32768 - ?opa_a) * ucast a div 32768) = (32768 - ?A) * unat a div 32768"
    by (subst unat_div) (simp add: c)
  have "unat ?opa_a + unat ((32768 - ?opa_a) * ucast a div 32768) < 4294967296"
    unfolding a c2 using le by simp
  then have d: "unat (?opa_a + (32768 - ?opa_a) * ucast a div 32768)
      = ?A + (32768 - ?A) * unat a div 32768"
    by (simp only: unat_u32_add a c2)
  show ?thesis
    unfolding unat_u32_u16 d using le by simp
qed

lemma Normal_color_unat:
  fixes m opacity c x :: u16
  assumes "unat m \<le> 32768" "unat opacity \<le> 32768" "unat c \<le> 32768" "unat x \<le> 32768"
  shows "unat (ucast (((ucast m * ucast opacity div 32768 :: u32) * ucast c
                 + (32768 - ucast m * ucast opacity div 32768) * ucast x) div 32768) :: u16)
         = (unat m * unat opacity div 32768 * unat c
           + (32768 - unat m * unat opacity div 32768) * unat x) div 32768"
proof -
  let ?A = "unat m * unat opacity div 32768"
  let ?opa_a = "ucast m * ucast opacity div 32768 :: u32"
  have "unat m * unat opacity \<le> 1073741824" using assms(1,2) by (rule fix15_prod_le)
  then have A: "?A \<le> 32768" by simp
  have a: "unat ?opa_a = ?A" by (rule unat_opa_a)
  have b: "unat (32768 - ?opa_a) = 32768 - ?A"
    using A by (subst unat_u32_sub) (simp_all add: a)
  have p1: "?A * unat c \<le> 1073741824" using A assms(3) by (rule fix15_prod_le)
  have p2: "(32768 - ?A) * unat x \<le> 1073741824" using assms(4) by (intro fix15_prod_le) simp_all
  have c: "unat (?opa_a * ucast c) = ?A * unat c"
    using p1 by (subst unat_u32_mult) (simp_all add: a unat_u16_u32)
  have d: "unat ((32768 - ?opa_a) * ucast x) = (32768 - ?A) * unat x"
    using p2 by (subst unat_u32_mult) (simp_all add: b unat_u16_u32)
  have "unat (?opa_a * ucast c) + unat ((32768 - ?opa_a) * ucast x) < 4294967296"
    unfolding c d using p1 p2 by simp
  then have e: "unat (?opa_a * ucast c + (32768 - ?opa_a) * ucast x) = ?A * unat c + (32768 - ?A) * unat x"
    by (simp only: unat_u32_add c d)
  have "(?A * unat c + (32768 - ?A) * unat x) div 32768 \<le> ?A + (32768 - ?A) * 32768 div 32768"
    using A assms(3,4) by (intro blend_nat(1)) simp_all
  then have le: "(?A * unat c + (32768 - ?A) * unat x) div 32768 \<le> 32768" using A by simp
  have "unat ((?opa_a * ucast c + (32768 - ?opa_a) * ucast x) div 32768)
      = (?A * unat c + (32768 - ?A) * unat x) div 32768"
    by (subst unat_div) (simp add: e)
  then show ?thesis
    unfolding unat_u32_u16 using le by simp
qed

lemma Normal_px_length:
  "length (BlendMode_Normal_px color_r color_g color_b opacity m p r) = length r"
  by (simp add: BlendMode_Normal_px_def Let_def)

lemma Normal_px_frame:
  "j < p \<or> p + 4 \<le> j
    \<Longrightarrow> BlendMode_Normal_px color_r color_g color_b opacity m p r ! j = r ! j"
  by (auto simp: BlendMode_Normal_px_def Let_def)

lemma Normal_px_nth:
  assumes "p + 3 < length r"
  shows "BlendMode_Normal_px color_r color_g color_b opacity m p r ! (p + 3)
          = ucast ((ucast m * ucast opacity div 32768 :: u32)
                 + (32768 - ucast m * ucast opacity div 32768) * ucast (r ! (p + 3)) div 32768)"
    and "BlendMode_Normal_px color_r color_g color_b opacity m p r ! p
          = ucast (((ucast m * ucast opacity div 32768 :: u32) * ucast color_r
                 + (32768 - ucast m * ucast opacity div 32768) * ucast (r ! p)) div 32768)"
    and "BlendMode_Normal_px color_r color_g color_b opacity m p r ! (p + 1)
          = ucast (((ucast m * ucast opacity div 32768 :: u32) * ucast color_g
                 + (32768 - ucast m * ucast opacity div 32768) * ucast (r ! (p + 1))) div 32768)"
    and "BlendMode_Normal_px color_r color_g color_b opacity m p r ! (p + 2)
          = ucast (((ucast m * ucast opacity div 32768 :: u32) * ucast color_b
                 + (32768 - ucast m * ucast opacity div 32768) * ucast (r ! (p + 2))) div 32768)"
  using assms by (simp_all add: BlendMode_Normal_px_def Let_def)

lemma u16_le_fix15: "(x::u16) \<le> 32768 \<longleftrightarrow> unat x \<le> 32768"
  by (simp add: word_le_nat_alt)

lemma Normal_px_premultiplied:
  assumes m: "m \<le> 32768" and o: "opacity \<le> 32768"
    and col: "color_r \<le> 32768" "color_g \<le> 32768" "color_b \<le> 32768"
    and p: "p + 3 < length r" and pre: "premultiplied r p"
  shows "premultiplied (BlendMode_Normal_px color_r color_g color_b opacity m p r) p"
proof -
  let ?A = "unat m * unat opacity div 32768"
  let ?a = "unat (r ! (p + 3))"
  have mo: "unat m \<le> 32768" "unat opacity \<le> 32768"
    using m o by (simp_all add: u16_le_fix15)
  have a: "?a \<le> 32768" using pre by (simp add: premultiplied_def u16_le_fix15)
  have "unat m * unat opacity \<le> 1073741824" using mo by (rule fix15_prod_le)
  then have A: "?A \<le> 32768" by simp
  have ch: "unat (ucast (((ucast m * ucast opacity div 32768 :: u32) * ucast c
                 + (32768 - ucast m * ucast opacity div 32768) * ucast x) div 32768) :: u16)
          \<le> ?A + (32768 - ?A) * ?a div 32768"
    if "c \<le> 32768" "x \<le> r ! (p + 3)" for c x :: u16
  proof -
    have c: "unat c \<le> 32768" using that(1) by (simp add: u16_le_fix15)
    have x: "unat x \<le> ?a" using that(2) by (simp add: word_le_nat_alt)
    then have "unat x \<le> 32768" using a by simp
    then show ?thesis
      unfolding Normal_color_unat [OF mo c \<open>unat x \<le> 32768\<close>]
      using A a x c by (intro blend_nat(1))
  qed
  have al: "unat (BlendMode_Normal_px color_r color_g color_b opacity m p r ! (p + 3))
      = ?A + (32768 - ?A) * ?a div 32768"
    unfolding Normal_px_nth(1) [OF p] using mo a by (rule Normal_alpha_unat)
  have "?A + (32768 - ?A) * ?a div 32768 \<le> 32768"
    using A a by (intro blend_nat(2) [where x = 0 and c = 0]) simp_all
  then show ?thesis
    unfolding premultiplied_def word_le_nat_alt [of _ "_ ! (p + 3)"] u16_le_fix15 al
    unfolding Normal_px_nth(2-4) [OF p]
    using ch col pre by (simp add: premultiplied_def)
qed

text \<open>
  C3, as the code has it. The lock-alpha dab leaves the alpha of every pixel as it was,
  for every mask whose skip counts are whole pixels (multiples of 4, since the code adds
  the skip count to a pointer to 16-bit channel values), every pixel buffer, colour and
  opacity.
\<close>

theorem LockAlpha_keeps_alpha:
  assumes "rle_aligned msk"
    and "draw_dab_pixels_BlendMode_LockAlpha msk rgba color_r color_g color_b opacity = Some rgba'"
  shows "length rgba' = length rgba \<and> (\<forall>i. 4 * i + 3 < length rgba \<longrightarrow> rgba' ! (4 * i + 3) = rgba ! (4 * i + 3))"
proof -
  let ?body = "BlendMode_LockAlpha_px color_r color_g color_b opacity"
  let ?P = "\<lambda>r. \<forall>i. r ! (4 * i + 3) = rgba ! (4 * i + 3)"
  have run: "rle_loop ?body msk 0 rgba = Some rgba'"
    using assms(2) by (simp add: draw_dab_pixels_BlendMode_LockAlpha_def)
  have "?P rgba'"
  proof (rule rle_loop_invariant [where P = ?P and Q = "\<lambda>m. True", OF _ assms(1) _ _ run])
    show "\<And>m p r. ?P r \<Longrightarrow> True \<Longrightarrow> p mod 4 = 0 \<Longrightarrow> p + 3 < length r \<Longrightarrow> ?P (?body m p r)"
      by (simp add: LockAlpha_px_alpha)
  qed simp_all
  moreover have "length rgba' = length rgba"
    using run by (rule rle_loop_length [rotated]) (rule LockAlpha_px_length)
  ultimately show ?thesis by simp
qed

theorem LockAlpha_keeps_alpha_witness:
  "rle_aligned [0, 4, 32768, 0, 0]
   \<and> draw_dab_pixels_BlendMode_LockAlpha [0, 4, 32768, 0, 0]
        [1, 2, 3, 4, 100, 200, 300, 16384] 32768 0 0 32768
       = Some [1, 2, 3, 4, 16384, 0, 0, 16384]"
proof -
  have a: "rle_aligned [0, 4, 32768, 0, 0]" by simp
  have r: "draw_dab_pixels_BlendMode_LockAlpha [0, 4, 32768, 0, 0]
        [1, 2, 3, 4, 100, 200, 300, 16384] 32768 0 0 32768
       = Some [1, 2, 3, 4, 16384, 0, 0, 16384]"
    by (simp add: draw_dab_pixels_BlendMode_LockAlpha_def BlendMode_LockAlpha_px_def Let_def)
  show ?thesis using a r LockAlpha_keeps_alpha [OF a r] by simp
qed

text \<open>
  Without the condition on the skip counts the statement fails. The mask below, read
  with skip counts in pixels, covers a tile of 2 \<times> 2 pixels exactly once (skip 1, a run
  of one pixel, skip 2); the code moves the pointer by one element instead, treats the
  elements 1 to 4 as a pixel and stores a colour channel in element 3, the alpha of the
  first pixel, which changes from 32768 to 0.
\<close>

theorem LockAlpha_alpha_counterexample:
  "draw_dab_pixels_BlendMode_LockAlpha [0, 1, 32768, 0, 2, 0, 0]
        [0, 0, 0, 32768, 32768, 0, 0, 32768, 0, 0, 0, 0, 0, 0, 0, 0] 0 0 0 32768
       = Some [0, 0, 0, 0, 32768, 0, 0, 32768, 0, 0, 0, 0, 0, 0, 0, 0]
   \<and> [0, 0, 0, 0, 32768, 0, 0, 32768, 0, 0, 0, 0, 0, 0, 0, 0 :: u16] ! 3
       \<noteq> [0, 0, 0, 32768, 32768, 0, 0, 32768, 0, 0, 0, 0, 0, 0, 0, 0] ! 3"
  by (simp add: draw_dab_pixels_BlendMode_LockAlpha_def BlendMode_LockAlpha_px_def Let_def)

text \<open>
  C10, as the code has it. The normal dab keeps every pixel of the buffer in the working
  encoding (\<open>R, G, B \<le> A \<le> 32768\<close>) when the mask entries, the opacity and the colour
  are at most 32768 and the skip counts of the mask are whole pixels (multiples of 4).
\<close>

theorem Normal_keeps_premultiplied:
  assumes "rle_aligned msk" and "\<forall>m \<in> set msk. m \<le> 32768"
    and "opacity \<le> 32768" and "color_r \<le> 32768" and "color_g \<le> 32768" and "color_b \<le> 32768"
    and "\<forall>i. 4 * i + 3 < length rgba \<longrightarrow> premultiplied rgba (4 * i)"
    and "draw_dab_pixels_BlendMode_Normal msk rgba color_r color_g color_b opacity = Some rgba'"
  shows "length rgba' = length rgba \<and> (\<forall>i. 4 * i + 3 < length rgba' \<longrightarrow> premultiplied rgba' (4 * i))"
proof -
  let ?body = "BlendMode_Normal_px color_r color_g color_b opacity"
  let ?P = "\<lambda>r. \<forall>i. 4 * i + 3 < length r \<longrightarrow> premultiplied r (4 * i)"
  have run: "rle_loop ?body msk 0 rgba = Some rgba'"
    using assms(8) by (simp add: draw_dab_pixels_BlendMode_Normal_def)
  have step: "?P (?body m p r)"
    if P: "?P r" and m: "m \<le> 32768" and al: "p mod 4 = 0" and inb: "p + 3 < length r" for m p r
  proof (intro allI impI)
    fix i assume i: "4 * i + 3 < length (?body m p r)"
    then have i': "4 * i + 3 < length r" by (simp add: Normal_px_length)
    show "premultiplied (?body m p r) (4 * i)"
    proof (cases "4 * i = p")
      case True
      have "premultiplied r p" using P i' True by auto
      then show ?thesis
        unfolding True by (intro Normal_px_premultiplied m assms(3-6) inb)
    next
      case False
      then have "4 * i + 4 \<le> p \<or> p + 4 \<le> 4 * i" using al by presburger
      then have "?body m p r ! (4 * i + c) = r ! (4 * i + c)" if "c < 4" for c
        using that by (intro Normal_px_frame) linarith
      from this [of 0] this [of 1] this [of 2] this [of 3] P i' show ?thesis
        by (simp add: premultiplied_def)
    qed
  qed
  have "?P rgba'"
    by (rule rle_loop_invariant [where P = ?P and Q = "\<lambda>m. m \<le> 32768",
          OF step assms(1) _ assms(7) run assms(2)]) simp_all
  moreover have "length rgba' = length rgba"
    using run by (rule rle_loop_length [rotated]) (rule Normal_px_length)
  ultimately show ?thesis by simp
qed

theorem Normal_keeps_premultiplied_witness:
  "rle_aligned [0, 4, 16384, 0, 0]
   \<and> draw_dab_pixels_BlendMode_Normal [0, 4, 16384, 0, 0]
        [1, 2, 3, 4, 100, 200, 300, 16384] 32768 0 0 32768
       = Some [1, 2, 3, 4, 16434, 100, 150, 24576]
   \<and> premultiplied [1, 2, 3, 4, 16434, 100, 150, 24576] 4"
proof -
  have a: "rle_aligned [0, 4, 16384, 0, 0]" by simp
  have b: "\<forall>m \<in> set [0, 4, 16384, 0, 0 :: u16]. m \<le> 32768" by simp
  have pre: "\<forall>i. 4 * i + 3 < length [1, 2, 3, 4, 100, 200, 300, 16384 :: u16]
      \<longrightarrow> premultiplied [1, 2, 3, 4, 100, 200, 300, 16384] (4 * i)"
  proof (intro allI impI)
    fix i :: nat assume "4 * i + 3 < length [1, 2, 3, 4, 100, 200, 300, 16384 :: u16]"
    then have "i = 0 \<or> i = 1" by auto
    then show "premultiplied [1, 2, 3, 4, 100, 200, 300, 16384] (4 * i)"
      by (auto simp: premultiplied_def)
  qed
  have r: "draw_dab_pixels_BlendMode_Normal [0, 4, 16384, 0, 0]
        [1, 2, 3, 4, 100, 200, 300, 16384] 32768 0 0 32768
       = Some [1, 2, 3, 4, 16434, 100, 150, 24576]"
    by (simp add: draw_dab_pixels_BlendMode_Normal_def BlendMode_Normal_px_def Let_def)
  have "\<forall>i. 4 * i + 3 < length [1, 2, 3, 4, 16434, 100, 150, 24576 :: u16]
      \<longrightarrow> premultiplied [1, 2, 3, 4, 16434, 100, 150, 24576] (4 * i)"
    using Normal_keeps_premultiplied [OF a b _ _ _ _ pre r] by simp
  from this [rule_format, of 1] show ?thesis using a r by simp
qed

text \<open>
  Without the condition on the skip counts the statement fails. For the same mask
  (skip 1, a run of one pixel, skip 2) and a transparent tile of 2 \<times> 2 pixels the dab
  stores its alpha in element 4, the red channel of the second pixel, whose alpha
  remains 0.
\<close>

theorem Normal_premultiplied_counterexample:
  "draw_dab_pixels_BlendMode_Normal [0, 1, 32768, 0, 2, 0, 0]
        [0, 0, 0, 0, 0, 0, 0, 0, 0, 0, 0, 0, 0, 0, 0, 0] 0 0 0 32768
       = Some [0, 0, 0, 0, 32768, 0, 0, 0, 0, 0, 0, 0, 0, 0, 0, 0]
   \<and> \<not> premultiplied [0, 0, 0, 0, 32768, 0, 0, 0, 0, 0, 0, 0, 0, 0, 0, 0] 4"
  by (simp add: draw_dab_pixels_BlendMode_Normal_def BlendMode_Normal_px_def Let_def
      premultiplied_def)

subsection \<open>Downscaling\<close>

lemma downscale_px_length: "length (downscale_px N src sp dp dst) = length dst"
  by (simp add: downscale_px_def)

lemma downscale_px_frame: "j < dp \<or> dp + 4 \<le> j \<Longrightarrow> downscale_px N src sp dp dst ! j = dst ! j"
  by (auto simp: downscale_px_def)

lemma downscale_px_nth:
  "dp + 3 < length dst \<Longrightarrow> c < 4 \<Longrightarrow> downscale_px N src sp dp dst ! (dp + c) = downscale_channel N src sp c"
proof -
  assume a: "dp + 3 < length dst" "c < 4"
  then consider "c = 0" | "c = 1" | "c = 2" | "c = 3" by linarith
  then show ?thesis using a(1) by cases (simp_all add: downscale_px_def)
qed

lemma quadrant_offset_bound:
  assumes "y + dst_y < N" "dst_x + x < (N::nat)"
  shows "(y + dst_y) * (4 * N) + 4 * dst_x + 4 * x + 3 < 4 * (N * N)"
proof -
  have "(y + dst_y) * (4 * N) + 4 * dst_x + 4 * x + 3 < (y + dst_y) * (4 * N) + 4 * N"
    using assms(2) by simp
  also have "\<dots> = Suc (y + dst_y) * (4 * N)" by simp
  also have "\<dots> \<le> N * (4 * N)" using assms(1) by (intro mult_le_mono1) simp
  finally show ?thesis by (simp add: mult.left_commute)
qed

lemma downscale_loop_nth:
  assumes len: "length dst = tile_len N"
    and fit: "dst_x + N div 2 \<le> N" "dst_y + N div 2 \<le> N"
    and y: "y < N div 2" and x: "x < N div 2" and c: "c < 4"
  shows "for_loop (N div 2) (\<lambda>y. for_loop (N div 2) (\<lambda>x.
            downscale_px N src (2 * y * (4 * N) + 8 * x)
              ((y + dst_y) * (4 * N) + 4 * dst_x + 4 * x))) dst
           ! ((y + dst_y) * (4 * N) + 4 * dst_x + 4 * x + c)
         = downscale_channel N src (2 * y * (4 * N) + 8 * x) c"
proof -
  let ?dp = "\<lambda>y x. (y + dst_y) * (4 * N) + 4 * dst_x + 4 * x"
  let ?f = "\<lambda>y x. downscale_px N src (2 * y * (4 * N) + 8 * x) (?dp y x)"
  let ?J = "{?dp y x ..< ?dp y x + 4}"
  have inb: "?dp y x + 3 < length dst"
    unfolding len tile_len_def using fit y x by (intro quadrant_offset_bound) simp_all
  have "for_loop (N div 2) (\<lambda>y. for_loop (N div 2) (?f y)) dst ! (?dp y x + c)
      = ?f y x dst ! (?dp y x + c)"
    using y x len
  proof (rule for_loop2_local [where P = "\<lambda>s. length s = tile_len N" and J = ?J])
    show "\<And>y' x' s. length s = tile_len N \<Longrightarrow> length (?f y' x' s) = tile_len N"
      by (simp add: downscale_px_length)
    show "?f y' x' s ! j = s ! j"
      if a: "x' < N div 2" "(y', x') \<noteq> (y, x)" "j \<in> ?J" for y' x' s j
    proof (rule downscale_px_frame)
      obtain k where k: "j = ?dp y x + k" "k < 4"
        using a(3) by (auto simp: le_iff_add)
      show "j < ?dp y' x' \<or> ?dp y' x' + 4 \<le> j"
      proof (rule ccontr)
        assume "\<not> (j < ?dp y' x' \<or> ?dp y' x' + 4 \<le> j)"
        then have "?dp y' x' \<le> j" "j < ?dp y' x' + 4" by simp_all
        then have "j = ?dp y' x' + (j - ?dp y' x')" "j - ?dp y' x' < 4" by simp_all
        then obtain k' where k': "j = ?dp y' x' + k'" "k' < 4" by blast
        have e: "(y + dst_y) * (4 * N) + (4 * (dst_x + x) + k)
               = (y' + dst_y) * (4 * N) + (4 * (dst_x + x') + k')"
          using k(1) k'(1) by simp
        have "4 * (dst_x + x) + k < 4 * N" "4 * (dst_x + x') + k' < 4 * N"
          using fit(1) x a(1) k(2) k'(2) by simp_all
        from cell_index_inj [OF this e]
        have "y = y'" "4 * (dst_x + x) + k = 4 * (dst_x + x') + k'" by simp_all
        then have "y = y'" "x = x'" using k(2) k'(2) by presburger+
        with a(2) show False by simp
      qed
    qed
    show "\<And>s s' j. length s = tile_len N \<Longrightarrow> length s' = tile_len N \<Longrightarrow> j \<in> ?J
        \<Longrightarrow> ?f y x s ! j = ?f y x s' ! j"
    proof -
      fix s s' :: "u16 list" and j
      assume s: "length s = tile_len N" "length s' = tile_len N" and j: "j \<in> ?J"
      obtain k where k: "j = ?dp y x + k" "k < 4"
        using j by (auto simp: le_iff_add)
      show "?f y x s ! j = ?f y x s' ! j"
        unfolding k(1) using inb len s k(2) by (simp add: downscale_px_nth)
    qed
    show "?dp y x + c \<in> ?J" using c by simp
  qed
  then show ?thesis using inb c by (simp add: downscale_px_nth)
qed

lemma block_offset_bound:
  assumes "y < N div 2" "x < N div 2" "c < (4::nat)"
  shows "2 * y * (4 * N) + 8 * x + 4 * N + 4 + c < 4 * (N * N)"
proof -
  have "8 * x + 4 + c < 4 * N" using assms(2,3) by simp
  then have "2 * y * (4 * N) + 8 * x + 4 * N + 4 + c < 2 * y * (4 * N) + 4 * N + 4 * N"
    by simp
  also have "\<dots> = (2 * y + 2) * (4 * N)" by simp
  also have "\<dots> \<le> N * (4 * N)" using assms(1) by (intro mult_le_mono1) simp
  finally show ?thesis by (simp add: mult.left_commute)
qed

lemma quarter_sum:
  "unat (word_of_int (uint C div 4 + uint C div 4 + uint C div 4 + uint C div 4) :: u16)
     = 4 * (unat (C::u16) div 4)"
proof -
  have "uint C div 4 = int (unat C div 4)" by (simp add: zdiv_int)
  then have "uint C div 4 + uint C div 4 + uint C div 4 + uint C div 4 = int (4 * (unat C div 4))"
    by simp
  then have "(word_of_int (uint C div 4 + uint C div 4 + uint C div 4 + uint C div 4) :: u16)
      = word_of_nat (4 * (unat C div 4))"
    by (simp only: of_int_of_nat_eq)
  moreover have "4 * (unat C div 4) < 65536" using unat_u16_lt [of C] by simp
  ultimately show ?thesis by (simp only: unat_of_nat_u16)
qed

lemma downscale_channel_uniform:
  assumes "\<forall>j < length src. src ! j = C" and "sp + 4 * N + 4 + c < length src"
  shows "unat (downscale_channel N src sp c) = 4 * (unat C div 4)"
proof -
  have "src ! (sp + c) = C" "src ! (sp + 4 + c) = C" "src ! (sp + 4 * N + c) = C"
       "src ! (sp + 4 * N + 4 + c) = C"
    using assms by simp_all
  then show ?thesis by (simp only: downscale_channel_def quarter_sum)
qed

text \<open>
  C2, as the code has it. Each of the four samples is divided by 4 before the sum, so
  a tile in which every channel of every pixel is \<open>C\<close> gives a quadrant in which every
  channel is \<open>4 * (C div 4)\<close>: \<open>C\<close> rounded down to a multiple of 4, and \<open>C\<close> itself exactly
  when \<open>C\<close> is a multiple of 4.
\<close>

theorem downscale_uniform:
  assumes "length src = tile_len N" and "length dst = tile_len N"
    and "dst_x + N div 2 \<le> N" and "dst_y + N div 2 \<le> N"
    and "\<forall>j < length src. src ! j = C"
    and "y < N div 2" and "x < N div 2" and "c < 4"
  shows "\<exists>dst'. tile_downscale_rgba16 N src dst dst_x dst_y = Some dst'
           \<and> unat (dst' ! ((y + dst_y) * (4 * N) + 4 * dst_x + 4 * x + c)) = 4 * (unat C div 4)
           \<and> (unat C mod 4 = 0 \<longrightarrow> dst' ! ((y + dst_y) * (4 * N) + 4 * dst_x + 4 * x + c) = C)"
proof -
  let ?r = "for_loop (N div 2) (\<lambda>y. for_loop (N div 2) (\<lambda>x.
            downscale_px N src (2 * y * (4 * N) + 8 * x)
              ((y + dst_y) * (4 * N) + 4 * dst_x + 4 * x))) dst"
  let ?i = "(y + dst_y) * (4 * N) + 4 * dst_x + 4 * x + c"
  have "?r ! ?i = downscale_channel N src (2 * y * (4 * N) + 8 * x) c"
    using assms(2,3,4,6,7,8) by (rule downscale_loop_nth)
  moreover have "unat (downscale_channel N src (2 * y * (4 * N) + 8 * x) c) = 4 * (unat C div 4)"
    using assms(5)
  proof (rule downscale_channel_uniform)
    show "2 * y * (4 * N) + 8 * x + 4 * N + 4 + c < length src"
      unfolding assms(1) tile_len_def using assms(6,7,8) by (rule block_offset_bound)
  qed
  ultimately have v: "unat (?r ! ?i) = 4 * (unat C div 4)" by simp
  have "?r ! ?i = C" if "unat C mod 4 = 0"
  proof -
    have "4 * (unat C div 4) = unat C" using that by presburger
    then show ?thesis using v by (simp add: word_unat_eq_iff)
  qed
  then show ?thesis
    using assms(1-4) v by (simp add: tile_downscale_rgba16_def)
qed

theorem downscale_uniform_witness:
  "tile_downscale_rgba16 2 [8, 8, 8, 8, 8, 8, 8, 8, 8, 8, 8, 8, 8, 8, 8, 8] [0, 0, 0, 0, 0, 0, 0, 0, 0, 0, 0, 0, 0, 0, 0, 0] 1 0
     = Some [0, 0, 0, 0, 8, 8, 8, 8, 0, 0, 0, 0, 0, 0, 0, 0]"
proof -
  have "\<forall>v \<in> set ([8, 8, 8, 8, 8, 8, 8, 8, 8, 8, 8, 8, 8, 8, 8, 8] :: u16 list). v = 8"
    by simp
  then have u: "\<forall>j < length ([8, 8, 8, 8, 8, 8, 8, 8, 8, 8, 8, 8, 8, 8, 8, 8] :: u16 list).
      [8, 8, 8, 8, 8, 8, 8, 8, 8, 8, 8, 8, 8, 8, 8, 8] ! j = (8 :: u16)"
    unfolding all_set_conv_all_nth .
  have "\<exists>dst'. tile_downscale_rgba16 2 [8, 8, 8, 8, 8, 8, 8, 8, 8, 8, 8, 8, 8, 8, 8, 8] [0, 0, 0, 0, 0, 0, 0, 0, 0, 0, 0, 0, 0, 0, 0, 0] 1 0 = Some dst'
           \<and> unat (dst' ! ((0 + 0) * (4 * 2) + 4 * 1 + 4 * 0 + 0)) = 4 * (unat (8::u16) div 4)
           \<and> (unat (8::u16) mod 4 = 0 \<longrightarrow> dst' ! ((0 + 0) * (4 * 2) + 4 * 1 + 4 * 0 + 0) = 8)"
    using _ _ _ _ u by (rule downscale_uniform) (simp_all add: tile_len_def)
  then show ?thesis
    by (simp add: tile_downscale_rgba16_def tile_len_def downscale_px_def downscale_channel_def)
qed

text \<open>
  A channel value that is not a multiple of 4 is not reproduced: a tile of
  the constant 1 gives the quadrant value 0.
\<close>

theorem downscale_uniform_counterexample:
  "tile_downscale_rgba16 2 [1, 1, 1, 1, 1, 1, 1, 1, 1, 1, 1, 1, 1, 1, 1, 1] [1, 1, 1, 1, 1, 1, 1, 1, 1, 1, 1, 1, 1, 1, 1, 1] 0 0
     = Some [0, 0, 0, 0, 1, 1, 1, 1, 1, 1, 1, 1, 1, 1, 1, 1]"
  by (simp add: tile_downscale_rgba16_def tile_len_def downscale_px_def downscale_channel_def)

subsection \<open>Unflatten\<close>

lemma for_loop_option:
  assumes "P d"
    and "\<And>i d. i < n \<Longrightarrow> P d \<Longrightarrow> \<exists>d'. body i d = Some d' \<and> P d'"
  shows "for_loop n (\<lambda>i s. Option.bind s (body i)) (Some d)
           = Some (for_loop n (\<lambda>i d. the (body i d)) d)
         \<and> P (for_loop n (\<lambda>i d. the (body i d)) d)"
  using assms(2)
proof (induction n)
  case 0
  show ?case using assms(1) by simp
next
  case (Suc n)
  let ?d = "for_loop n (\<lambda>i d. the (body i d)) d"
  have IH: "for_loop n (\<lambda>i s. Option.bind s (body i)) (Some d) = Some ?d" "P ?d"
    using Suc.IH Suc.prems by simp_all
  obtain d' where "body n ?d = Some d'" "P d'"
    using Suc.prems [of n ?d] IH(2) by auto
  then show ?case using IH(1) by simp
qed

lemma uint_u16_fix15: "(x::u16) \<le> 32768 \<longleftrightarrow> uint x \<le> 32768"
  by (simp add: word_le_def)

lemma uint_word_of_int_u16: "0 \<le> k \<Longrightarrow> k \<le> 32768 \<Longrightarrow> uint (word_of_int k :: u16) = k"
  by (simp add: uint_word_of_int)

lemma sdiv_nonneg: "0 \<le> k \<Longrightarrow> 0 < l \<Longrightarrow> k sdiv l = k div (l::int)"
  by (cases "k = 0") (simp_all add: signed_divide_int_def sgn_if)

lemma alpha_required_range:
  assumes "d \<le> 32768" "b \<le> 32768"
  shows "0 \<le> alpha_required d b \<and> alpha_required d b \<le> 32768"
proof -
  have d: "uint d \<le> 32768" and b: "uint b \<le> 32768"
    using assms by (simp_all add: uint_u16_fix15)
  have q: "0 \<le> x * 32768 div y \<and> x * 32768 div y \<le> 32768" if "0 \<le> x" "x \<le> y" "0 < y" for x y :: int
  proof -
    have "x * 32768 \<le> y * 32768" using that(2) by simp
    then have "x * 32768 div y \<le> y * 32768 div y" by (intro zdiv_mono1 that(3))
    moreover have "0 \<le> x * 32768 div y" using that(1,3) by (simp add: pos_imp_zdiv_nonneg_iff)
    ultimately show ?thesis using that(3) by simp
  qed
  show ?thesis
  proof (cases "uint d > uint b")
    case True
    then have "alpha_required d b = (uint d - uint b) * 32768 div (32768 - uint b)"
      unfolding alpha_required_def by (rule if_P)
    moreover have "0 \<le> uint d - uint b" "uint d - uint b \<le> 32768 - uint b" "0 < 32768 - uint b"
      using True d by linarith+
    ultimately show ?thesis using q by presburger
  next
    case False
    show ?thesis
    proof (cases "uint d < uint b")
      case True
      then have "alpha_required d b = (uint b - uint d) * 32768 div uint b"
        unfolding alpha_required_def using False by simp
      moreover have "0 \<le> uint d" by simp
      then have "0 \<le> uint b - uint d" "uint b - uint d \<le> uint b" "0 < uint b"
        using True by linarith+
      ultimately show ?thesis using q by presburger
    next
      case False
      with \<open>\<not> uint d > uint b\<close> show ?thesis by (simp add: alpha_required_def)
    qed
  qed
qed

lemma flat2rgba_alpha_step_in_range:
  assumes "final_alpha \<le> 32768" "d \<le> 32768" "b \<le> 32768" "a \<le> 32768"
  shows "\<exists>fa. flat2rgba_alpha_step final_alpha d b a = Some fa
           \<and> uint fa = max (max (uint final_alpha) (alpha_required d b)) (uint a)
           \<and> fa \<le> 32768"
proof -
  have f: "uint final_alpha \<le> 32768" and a: "uint a \<le> 32768"
    and d: "uint d \<le> 32768" and b: "uint b \<le> 32768"
    using assms by (simp_all add: uint_u16_fix15)
  have r: "0 \<le> alpha_required d b" "alpha_required d b \<le> 32768"
    using alpha_required_range [OF assms(2,3)] by simp_all
  let ?m = "max (uint final_alpha) (alpha_required d b)"
  have m: "0 \<le> ?m" "?m \<le> 32768" using f r by simp_all
  have m2: "0 \<le> max ?m (uint a)" "max ?m (uint a) \<le> 32768" using m a by simp_all
  have inner: "(if uint d - uint b > 0 then
         (if 32768 - uint b = 0 then None
          else Some (word_of_int
                 (MAX_int (uint final_alpha) ((uint d - uint b) * 32768 sdiv (32768 - uint b)))))
       else if uint d - uint b < 0 then
         (if uint b = 0 then None
          else Some (word_of_int
                 (MAX_int (uint final_alpha) ((- (uint d - uint b)) * 32768 sdiv uint b))))
       else Some final_alpha) = Some (word_of_int ?m :: u16)"
  proof (cases "uint d > uint b")
    case True
    then have "(uint d - uint b) * 32768 sdiv (32768 - uint b) = alpha_required d b"
      unfolding alpha_required_def using d by (subst sdiv_nonneg) simp_all
    then show ?thesis using True d by (simp add: MAX_int_def max_def)
  next
    case False
    show ?thesis
    proof (cases "uint d < uint b")
      case True
      moreover have "0 \<le> uint d" by simp
      ultimately have pos: "0 < uint b" by linarith
      then have "(- (uint d - uint b)) * 32768 sdiv uint b = alpha_required d b"
        unfolding alpha_required_def using True by (subst sdiv_nonneg) simp_all
      then show ?thesis using True pos by (simp add: MAX_int_def max_def)
    next
      case False
      with \<open>\<not> uint d > uint b\<close> have "uint d = uint b" by simp
      then have "alpha_required d b = 0" by (simp add: alpha_required_def)
      then show ?thesis using \<open>uint d = uint b\<close> by (simp add: max_def)
    qed
  qed
  have "flat2rgba_alpha_step final_alpha d b a
      = Some (word_of_int (MAX_int (uint (word_of_int ?m :: u16)) (uint a)))"
    unfolding flat2rgba_alpha_step_def Let_def inner by simp
  also have "uint (word_of_int ?m :: u16) = ?m" using m by (rule uint_word_of_int_u16)
  also have "MAX_int ?m (uint a) = max ?m (uint a)" by (simp add: MAX_int_def max_def)
  finally have s: "flat2rgba_alpha_step final_alpha d b a = Some (word_of_int (max ?m (uint a)))" .
  have u: "uint (word_of_int (max ?m (uint a)) :: u16) = max ?m (uint a)"
    using m2 by (rule uint_word_of_int_u16)
  show ?thesis
    using s u m2 by (simp add: uint_u16_fix15)
qed

lemma flat2rgba_final_alpha_in_range:
  assumes d: "d ! p \<le> 32768" "d ! (p + 1) \<le> 32768" "d ! (p + 2) \<le> 32768" "d ! (p + 3) \<le> 32768"
    and b: "bg ! p \<le> 32768" "bg ! (p + 1) \<le> 32768" "bg ! (p + 2) \<le> 32768"
  shows "\<exists>fa. flat2rgba_final_alpha bg p d = Some fa
           \<and> uint fa = max (max (max (alpha_required (d ! p) (bg ! p))
                                       (alpha_required (d ! (p + 1)) (bg ! (p + 1))))
                                  (alpha_required (d ! (p + 2)) (bg ! (p + 2))))
                             (uint (d ! (p + 3)))
           \<and> fa \<le> 32768"
proof -
  let ?a = "d ! (p + 3)"
  have z: "(0::u16) \<le> 32768" by simp
  obtain fa1 where 1: "flat2rgba_alpha_step 0 (d ! p) (bg ! p) ?a = Some fa1"
      "uint fa1 = max (max (uint (0::u16)) (alpha_required (d ! p) (bg ! p))) (uint ?a)"
      "fa1 \<le> 32768"
    using flat2rgba_alpha_step_in_range [OF z d(1) b(1) d(4)] by blast
  obtain fa2 where 2: "flat2rgba_alpha_step fa1 (d ! (p + 1)) (bg ! (p + 1)) ?a = Some fa2"
      "uint fa2 = max (max (uint fa1) (alpha_required (d ! (p + 1)) (bg ! (p + 1)))) (uint ?a)"
      "fa2 \<le> 32768"
    using flat2rgba_alpha_step_in_range [OF 1(3) d(2) b(2) d(4)] by blast
  obtain fa3 where 3: "flat2rgba_alpha_step fa2 (d ! (p + 2)) (bg ! (p + 2)) ?a = Some fa3"
      "uint fa3 = max (max (uint fa2) (alpha_required (d ! (p + 2)) (bg ! (p + 2)))) (uint ?a)"
      "fa3 \<le> 32768"
    using flat2rgba_alpha_step_in_range [OF 2(3) d(3) b(3) d(4)] by blast
  have "0 \<le> alpha_required (d ! p) (bg ! p)"
    using alpha_required_range [OF d(1) b(1)] by simp
  then have "uint fa3 = max (max (max (alpha_required (d ! p) (bg ! p))
                                       (alpha_required (d ! (p + 1)) (bg ! (p + 1))))
                                  (alpha_required (d ! (p + 2)) (bg ! (p + 2))))
                             (uint ?a)"
    unfolding 3(2) 2(2) 1(2) by simp
  moreover have "flat2rgba_final_alpha bg p d = Some fa3"
    unfolding flat2rgba_final_alpha_def by (simp only: 1(1) 2(1) 3(1) Option.bind.simps)
  ultimately show ?thesis using 3(3) by simp
qed

lemma flat2rgba_px_Some:
  assumes "flat2rgba_final_alpha bg p d = Some fa"
  shows "flat2rgba_px bg p d =
    Some (if fa > 0
          then d[p + 3 := fa,
                 p := flat2rgba_color fa (d ! p) (bg ! p),
                 p + 1 := flat2rgba_color fa (d ! (p + 1)) (bg ! (p + 1)),
                 p + 2 := flat2rgba_color fa (d ! (p + 2)) (bg ! (p + 2))]
          else d[p + 3 := fa, p := 0, p + 1 := 0, p + 2 := 0])"
  by (simp add: flat2rgba_px_def assms Let_def for_loop_3)

lemma flat2rgba_color_le: "flat2rgba_color fa d b \<le> fa"
proof -
  let ?res = "uint b * uint fa div 32768 + (uint d - uint b)"
  have f: "0 \<le> uint fa" "uint fa < 65536"
    using uint_lt2p [of fa] by simp_all
  then have c: "0 \<le> CLAMP ?res 0 (uint fa)" "CLAMP ?res 0 (uint fa) \<le> uint fa"
    by (simp_all add: CLAMP_def)
  then have "uint (word_of_int (CLAMP ?res 0 (uint fa)) :: u16) = CLAMP ?res 0 (uint fa)"
    using f by (simp add: uint_word_of_int)
  then show ?thesis
    using c(2) by (simp add: flat2rgba_color_def Let_def word_le_def)
qed

lemma flat2rgba_px_in_range:
  assumes len: "length d = L" "length bg = L" and p: "p + 3 < L"
    and d: "\<forall>j < L. d ! j \<le> 32768" and b: "\<forall>j < L. bg ! j \<le> 32768"
  shows "\<exists>d' fa. flat2rgba_px bg p d = Some d' \<and> length d' = L \<and> (\<forall>j < L. d' ! j \<le> 32768)
           \<and> flat2rgba_final_alpha bg p d = Some fa \<and> d' ! (p + 3) = fa
           \<and> (\<forall>j. j < p \<or> p + 4 \<le> j \<longrightarrow> d' ! j = d ! j)"
proof -
  obtain fa where fa: "flat2rgba_final_alpha bg p d = Some fa" "fa \<le> 32768"
    using flat2rgba_final_alpha_in_range [of d p bg] d b p by force
  let ?d = "if fa > 0
          then d[p + 3 := fa,
                 p := flat2rgba_color fa (d ! p) (bg ! p),
                 p + 1 := flat2rgba_color fa (d ! (p + 1)) (bg ! (p + 1)),
                 p + 2 := flat2rgba_color fa (d ! (p + 2)) (bg ! (p + 2))]
          else d[p + 3 := fa, p := 0, p + 1 := 0, p + 2 := 0]"
  have s: "flat2rgba_px bg p d = Some ?d" using fa(1) by (rule flat2rgba_px_Some)
  have col: "flat2rgba_color fa x y \<le> 32768" for x y
    using flat2rgba_color_le [of fa x y] fa(2) by simp
  have upd: "xs[i := v] ! j \<le> 32768"
    if "j < length xs \<longrightarrow> xs ! j \<le> 32768" "v \<le> 32768" "j < length xs"
    for xs :: "u16 list" and i j v
    using that by (cases "i = j") simp_all
  have "?d ! j \<le> 32768" if j: "j < L" for j
  proof -
    have "d ! j \<le> 32768" using d j by simp
    then show ?thesis
      using j len(1) fa(2) col by (auto intro!: upd)
  qed
  moreover have "length ?d = L" using len(1) by simp
  moreover have "?d ! (p + 3) = fa" using p len(1) by simp
  moreover have "\<forall>j. j < p \<or> p + 4 \<le> j \<longrightarrow> ?d ! j = d ! j" by auto
  ultimately show ?thesis using s fa(1) by simp
qed

lemma flat2rgba_final_alpha_local:
  assumes "\<forall>k<4. d ! (p + k) = d' ! (p + k)"
  shows "flat2rgba_final_alpha bg p d = flat2rgba_final_alpha bg p d'"
proof -
  have "d ! p = d' ! p" "d ! (p + 1) = d' ! (p + 1)" "d ! (p + 2) = d' ! (p + 2)"
       "d ! (p + 3) = d' ! (p + 3)"
    using assms [rule_format, of 0] assms [rule_format, of 1]
      assms [rule_format, of 2] assms [rule_format, of 3] by simp_all
  then show ?thesis by (simp add: flat2rgba_final_alpha_def)
qed

lemma flat2rgba_px_local:
  assumes "\<forall>k<4. d ! (p + k) = d' ! (p + k)"
    and "length d = length d'" and "p + 3 < length d" and "c < 4"
    and "flat2rgba_final_alpha bg p d = Some fa"
  shows "the (flat2rgba_px bg p d) ! (p + c) = the (flat2rgba_px bg p d') ! (p + c)"
proof -
  have e: "d ! p = d' ! p" "d ! (p + 1) = d' ! (p + 1)" "d ! (p + 2) = d' ! (p + 2)"
       "d ! (p + 3) = d' ! (p + 3)"
    using assms(1) [rule_format, of 0] assms(1) [rule_format, of 1]
      assms(1) [rule_format, of 2] assms(1) [rule_format, of 3] by simp_all
  have fa': "flat2rgba_final_alpha bg p d' = Some fa"
    using flat2rgba_final_alpha_local [OF assms(1)] assms(5) by simp
  consider "c = 0" | "c = 1" | "c = 2" | "c = 3" using assms(4) by linarith
  then show ?thesis
    using assms(2,3) e
    by cases (simp_all add: flat2rgba_px_Some [OF assms(5)] flat2rgba_px_Some [OF fa'])
qed

lemma tile_flat2rgba_nth:
  assumes len: "length dst = tile_len N" "length bg = tile_len N"
    and d: "\<forall>j < tile_len N. dst ! j \<le> 32768" and b: "\<forall>j < tile_len N. bg ! j \<le> 32768"
    and p: "p < N * N" and c: "c < 4"
  shows "\<exists>dst'. tile_flat2rgba N dst bg = Some dst' \<and> length dst' = tile_len N
           \<and> dst' ! (4 * p + c) = the (flat2rgba_px bg (4 * p) dst) ! (4 * p + c)"
proof -
  let ?L = "tile_len N"
  let ?P = "\<lambda>d. length d = ?L \<and> (\<forall>j < ?L. d ! j \<le> 32768)"
  let ?body = "\<lambda>q d. the (flat2rgba_px bg (4 * q) d)"
  have px: "\<exists>d' fa. flat2rgba_px bg (4 * q) d = Some d' \<and> length d' = ?L \<and> (\<forall>j < ?L. d' ! j \<le> 32768)
           \<and> flat2rgba_final_alpha bg (4 * q) d = Some fa \<and> d' ! (4 * q + 3) = fa
           \<and> (\<forall>j. j < 4 * q \<or> 4 * q + 4 \<le> j \<longrightarrow> d' ! j = d ! j)"
    if "q < N * N" "?P d" for q d
    using that len(2) b by (intro flat2rgba_px_in_range) (simp_all add: tile_len_def)
  have P0: "?P dst" using len(1) d by simp
  have run: "for_loop (N * N) (\<lambda>i s. Option.bind s (flat2rgba_px bg (4 * i))) (Some dst)
           = Some (for_loop (N * N) ?body dst)
         \<and> ?P (for_loop (N * N) ?body dst)"
    using P0
  proof (rule for_loop_option [where P = ?P])
    show "\<exists>d'. flat2rgba_px bg (4 * i) d = Some d' \<and> ?P d'" if "i < N * N" "?P d" for i d
      using px [OF that] by blast
  qed
  have "for_loop (N * N) ?body dst ! (4 * p + c) = ?body p dst ! (4 * p + c)"
    using p c P0
  proof (rule pixel_loop_local [where P = ?P])
    show "?P (?body q d)" if "q < N * N" "?P d" for q d
      using px [OF that] by auto
    show "?body q d ! j = d ! j" if "q < N * N" "?P d" "j < 4 * q \<or> 4 * q + 4 \<le> j" for q d j
      using px [OF that(1,2)] that(3) by auto
    show "?body p d ! (4 * p + c) = ?body p d' ! (4 * p + c)"
      if a: "?P d" "?P d'" "\<forall>k<4. d ! (4 * p + k) = d' ! (4 * p + k)" "c < 4" for d d' c
    proof -
      obtain fa where "flat2rgba_final_alpha bg (4 * p) d = Some fa"
        using px [OF p a(1)] by blast
      then show ?thesis
        using a p by (intro flat2rgba_px_local) (simp_all add: tile_len_def)
    qed
  qed
  then show ?thesis
    using run len by (simp add: tile_flat2rgba_def)
qed

text \<open>
  C4. For a flat tile and a background with all channels in \<open>[0, 32768]\<close>, unflatten sets
  the alpha of each pixel to the maximum of the three per-channel alpha requirements
  and the alpha the pixel had; in particular the alpha does not decrease.
\<close>

theorem flat2rgba_final_alpha_is_max:
  assumes "length dst = tile_len N" and "length bg = tile_len N"
    and "\<forall>j < tile_len N. dst ! j \<le> 32768" and "\<forall>j < tile_len N. bg ! j \<le> 32768"
    and "p < N * N"
  shows "\<exists>dst'. tile_flat2rgba N dst bg = Some dst'
           \<and> uint (dst' ! (4 * p + 3))
               = max (max (max (alpha_required (dst ! (4 * p)) (bg ! (4 * p)))
                               (alpha_required (dst ! (4 * p + 1)) (bg ! (4 * p + 1))))
                          (alpha_required (dst ! (4 * p + 2)) (bg ! (4 * p + 2))))
                     (uint (dst ! (4 * p + 3)))
           \<and> dst ! (4 * p + 3) \<le> dst' ! (4 * p + 3)"
proof -
  have inb: "4 * p + 3 < tile_len N" using assms(5) by (simp add: tile_len_def)
  obtain dst' where dst': "tile_flat2rgba N dst bg = Some dst'"
      "dst' ! (4 * p + 3) = the (flat2rgba_px bg (4 * p) dst) ! (4 * p + 3)"
    using tile_flat2rgba_nth [OF assms, of 3] by auto
  obtain fa where fa: "flat2rgba_final_alpha bg (4 * p) dst = Some fa"
      "uint fa = max (max (max (alpha_required (dst ! (4 * p)) (bg ! (4 * p)))
                               (alpha_required (dst ! (4 * p + 1)) (bg ! (4 * p + 1))))
                          (alpha_required (dst ! (4 * p + 2)) (bg ! (4 * p + 2))))
                     (uint (dst ! (4 * p + 3)))"
    using flat2rgba_final_alpha_in_range [of dst "4 * p" bg] assms(3,4) inb by force
  have "the (flat2rgba_px bg (4 * p) dst) ! (4 * p + 3) = fa"
    using inb assms(1) by (simp add: flat2rgba_px_Some [OF fa(1)])
  then have e: "dst' ! (4 * p + 3) = fa" using dst'(2) by simp
  have "uint (dst ! (4 * p + 3)) \<le> uint fa" unfolding fa(2) by simp
  then have "dst ! (4 * p + 3) \<le> fa" by (simp add: word_le_def)
  then show ?thesis using dst'(1) e fa(2) by simp
qed

theorem flat2rgba_final_alpha_is_max_witness:
  "tile_flat2rgba 1 [12288, 8192, 6144, 4096] [8192, 8192, 8192, 32768]
     = Some [6144, 2048, 0, 8192]
   \<and> max (max (max (alpha_required 12288 8192) (alpha_required 8192 8192))
          (alpha_required 6144 8192)) (uint (4096 :: u16)) = 8192"
proof -
  have d: "\<forall>j < tile_len 1. [12288, 8192, 6144, 4096 :: u16] ! j \<le> 32768"
  proof (intro allI impI)
    fix j :: nat assume "j < tile_len 1"
    then have "j = 0 \<or> j = 1 \<or> j = 2 \<or> j = 3" by (auto simp: tile_len_def)
    then show "[12288, 8192, 6144, 4096 :: u16] ! j \<le> 32768" by auto
  qed
  have b: "\<forall>j < tile_len 1. [8192, 8192, 8192, 32768 :: u16] ! j \<le> 32768"
  proof (intro allI impI)
    fix j :: nat assume "j < tile_len 1"
    then have "j = 0 \<or> j = 1 \<or> j = 2 \<or> j = 3" by (auto simp: tile_len_def)
    then show "[8192, 8192, 8192, 32768 :: u16] ! j \<le> 32768" by auto
  qed
  have e: "tile_flat2rgba 1 [12288, 8192, 6144, 4096] [8192, 8192, 8192, 32768]
     = Some [6144, 2048, 0, 8192]"
    by (simp add: tile_flat2rgba_def tile_len_def flat2rgba_px_def flat2rgba_final_alpha_def
        flat2rgba_alpha_step_def flat2rgba_color_def Let_def MAX_int_def CLAMP_def for_loop_3
        signed_divide_int_def)
  show ?thesis
    using flat2rgba_final_alpha_is_max [OF _ _ d b, of 0] e by (simp add: tile_len_def)
qed

subsection \<open>Flatten\<close>

lemma rgba2flat_px_length: "length (rgba2flat_px bg p d) = length d"
  by (simp add: rgba2flat_px_def Let_def)

lemma rgba2flat_px_frame: "j < p \<or> p + 3 \<le> j \<Longrightarrow> rgba2flat_px bg p d ! j = d ! j"
  by (auto simp: rgba2flat_px_def Let_def)

lemma rgba2flat_px_nth:
  assumes "p + 3 < length d" and "c < 3"
  shows "rgba2flat_px bg p d ! (p + c)
           = ucast (ucast (d ! (p + c))
               + (32768 - ucast (d ! (p + 3)) :: u32) * ucast (bg ! (p + c)) div 32768)"
proof -
  consider "c = 0" | "c = 1" | "c = 2" using assms(2) by linarith
  then show ?thesis using assms(1) by cases (simp_all add: rgba2flat_px_def Let_def)
qed

lemma rgba2flat_loop_nth:
  assumes len: "length d = tile_len N" and p: "p < N * N" and c: "c < 4"
  shows "for_loop (N * N) (\<lambda>i. rgba2flat_px bg (4 * i)) d ! (4 * p + c)
           = rgba2flat_px bg (4 * p) d ! (4 * p + c)"
  using p c len
proof (rule pixel_loop_nth)
  show "\<And>q d. length d = tile_len N \<Longrightarrow> length (rgba2flat_px bg (4 * q) d) = tile_len N"
    by (simp add: rgba2flat_px_length)
  show "\<And>q d j. j < 4 * q \<or> 4 * q + 4 \<le> j \<Longrightarrow> rgba2flat_px bg (4 * q) d ! j = d ! j"
    by (rule rgba2flat_px_frame) auto
  show "rgba2flat_px bg (4 * p) d ! (4 * p + c) = rgba2flat_px bg (4 * p) d' ! (4 * p + c)"
    if a: "length d = tile_len N" "length d' = tile_len N"
      "\<forall>k<4. d ! (4 * p + k) = d' ! (4 * p + k)" "c < 4" for d d' c
  proof -
    have inb: "4 * p + 3 < length d" "4 * p + 3 < length d'"
      using a(1,2) p by (simp_all add: tile_len_def)
    have e3: "d ! (4 * p + 3) = d' ! (4 * p + 3)" using a(3) by simp
    show ?thesis
    proof (cases "c = 3")
      case True
      then show ?thesis using e3 by (simp add: rgba2flat_px_frame)
    next
      case False
      then have c3: "c < 3" using a(4) by simp
      have "d ! (4 * p + c) = d' ! (4 * p + c)" using a(3,4) by simp
      then show ?thesis
        unfolding rgba2flat_px_nth [OF inb(1) c3] rgba2flat_px_nth [OF inb(2) c3] e3 by simp
    qed
  qed
qed

text \<open>For a premultiplied pixel nothing wraps: the flat colour as an integer.\<close>

lemma rgba2flat_value:
  fixes x a b :: u16
  assumes "x \<le> a" "a \<le> 32768" "b \<le> 32768"
  shows "uint (ucast (ucast x + (32768 - ucast a :: u32) * ucast b div 32768) :: u16)
           = uint x + (32768 - uint a) * uint b div 32768"
    and "uint x + (32768 - uint a) * uint b div 32768 \<le> 32768"
proof -
  have a: "unat a \<le> 32768" and b: "unat b \<le> 32768" and x: "unat x \<le> unat a"
    using assms by (simp_all add: word_le_nat_alt)
  have s: "unat (32768 - ucast a :: u32) = 32768 - unat a"
    using a by (subst unat_u32_sub) (simp_all add: unat_u16_u32)
  have "(32768 - unat a) * unat b \<le> 1073741824" using b by (intro fix15_prod_le) simp_all
  then have m: "unat ((32768 - ucast a :: u32) * ucast b) = (32768 - unat a) * unat b"
    by (subst unat_u32_mult) (simp_all add: s unat_u16_u32)
  have q: "unat ((32768 - ucast a :: u32) * ucast b div 32768) = (32768 - unat a) * unat b div 32768"
    by (subst unat_div) (simp add: m)
  have "(32768 - unat a) * unat b \<le> (32768 - unat a) * 32768" using b by (rule mult_le_mono2)
  then have "(32768 - unat a) * unat b div 32768 \<le> (32768 - unat a) * 32768 div 32768"
    by (rule div_le_mono)
  then have le: "unat x + (32768 - unat a) * unat b div 32768 \<le> 32768" using x a by simp
  then have "unat (ucast x :: u32) + unat ((32768 - ucast a :: u32) * ucast b div 32768) < 4294967296"
    unfolding q unat_u16_u32 by simp
  then have ad: "unat (ucast x + (32768 - ucast a :: u32) * ucast b div 32768)
      = unat x + (32768 - unat a) * unat b div 32768"
    by (simp only: unat_u32_add q unat_u16_u32)
  have n: "unat (ucast (ucast x + (32768 - ucast a :: u32) * ucast b div 32768) :: u16)
      = unat x + (32768 - unat a) * unat b div 32768"
    unfolding unat_u32_u16 ad using le by simp
  have ia: "int (32768 - unat a) = 32768 - uint a"
    using a by simp
  have i: "int ((32768 - unat a) * unat b div 32768) = (32768 - uint a) * uint b div 32768"
    by (simp add: zdiv_int ia)
  have "int (unat (ucast (ucast x + (32768 - ucast a :: u32) * ucast b div 32768) :: u16))
      = int (unat x + (32768 - unat a) * unat b div 32768)"
    by (simp only: n)
  then show v: "uint (ucast (ucast x + (32768 - ucast a :: u32) * ucast b div 32768) :: u16)
           = uint x + (32768 - uint a) * uint b div 32768"
    using i by simp
  have "int (unat x + (32768 - unat a) * unat b div 32768) \<le> int 32768"
    using le by (rule of_nat_mono)
  then show "uint x + (32768 - uint a) * uint b div 32768 \<le> 32768"
    using i by simp
qed

subsection \<open>Flatten, then unflatten\<close>

lemma unflatten_color_bounds:
  fixes r a b A :: int
  assumes "0 \<le> r" "r \<le> a" "a \<le> A" "0 \<le> b" "b \<le> 32768"
  shows "r - 1 \<le> CLAMP (b * A div 32768 + (r + (32768 - a) * b div 32768 - b)) 0 A"
    and "CLAMP (b * A div 32768 + (r + (32768 - a) * b div 32768 - b)) 0 A \<le> r + (A - a)"
proof -
  let ?q1 = "b * A div 32768"
  let ?q2 = "(32768 - a) * b div 32768"
  have q1: "32768 * ?q1 \<le> b * A" "b * A < 32768 * ?q1 + 32768"
    using mult_div_mod_eq [of 32768 "b * A"] pos_mod_bound [of 32768 "b * A"]
      pos_mod_sign [of 32768 "b * A"] by linarith+
  have q2: "32768 * ?q2 \<le> (32768 - a) * b" "(32768 - a) * b < 32768 * ?q2 + 32768"
    using mult_div_mod_eq [of 32768 "(32768 - a) * b"] pos_mod_bound [of 32768 "(32768 - a) * b"]
      pos_mod_sign [of 32768 "(32768 - a) * b"] by linarith+
  have e: "(32768 - a) * b = 32768 * b - b * a" by (simp add: algebra_simps)
  have m1: "b * a \<le> b * A" using assms(3,4) by (rule mult_left_mono)
  have "b * (A - a) \<le> 32768 * (A - a)" using assms(3,5) by (intro mult_right_mono) simp_all
  then have m2: "b * A - b * a \<le> 32768 * A - 32768 * a" by (simp add: algebra_simps)
  have lo: "r - 1 \<le> ?q1 + (r + ?q2 - b)" using q1(2) q2(2) e m1 by linarith
  have hi: "?q1 + (r + ?q2 - b) \<le> r + (A - a)" using q1(1) q2(1) e m2 by linarith
  show "r - 1 \<le> CLAMP (?q1 + (r + ?q2 - b)) 0 A"
    using lo assms(1,2,3) by (simp add: CLAMP_def)
  show "CLAMP (?q1 + (r + ?q2 - b)) 0 A \<le> r + (A - a)"
    using hi assms(1,2,3) by (simp add: CLAMP_def)
qed

lemma flat2rgba_color_uint:
  "uint (flat2rgba_color fa d b) = CLAMP (uint b * uint fa div 32768 + (uint d - uint b)) 0 (uint fa)"
proof -
  let ?res = "uint b * uint fa div 32768 + (uint d - uint b)"
  have f: "0 \<le> uint fa" "uint fa < 65536"
    using uint_lt2p [of fa] by simp_all
  then have c: "0 \<le> CLAMP ?res 0 (uint fa)" "CLAMP ?res 0 (uint fa) \<le> uint fa"
    by (simp_all add: CLAMP_def)
  then have "uint (word_of_int (CLAMP ?res 0 (uint fa)) :: u16) = CLAMP ?res 0 (uint fa)"
    using f by (simp add: uint_word_of_int)
  then show ?thesis by (simp add: flat2rgba_color_def Let_def)
qed

lemma tile_rgba2flat_premultiplied:
  assumes len: "length dst = tile_len N" "length bg = tile_len N"
    and pre: "\<forall>q < N * N. premultiplied dst (4 * q)"
    and b: "\<forall>j < tile_len N. bg ! j \<le> 32768"
  shows "\<exists>flat. tile_rgba2flat N dst bg = Some flat \<and> length flat = tile_len N
           \<and> (\<forall>j < tile_len N. flat ! j \<le> 32768)
           \<and> (\<forall>q < N * N. flat ! (4 * q + 3) = dst ! (4 * q + 3)
                 \<and> (\<forall>c < 3. uint (flat ! (4 * q + c))
                       = uint (dst ! (4 * q + c))
                         + (32768 - uint (dst ! (4 * q + 3))) * uint (bg ! (4 * q + c)) div 32768))"
proof -
  let ?flat = "for_loop (N * N) (\<lambda>i. rgba2flat_px bg (4 * i)) dst"
  have lf: "length ?flat = tile_len N"
    using len(1) by (subst for_loop_length) (simp_all add: rgba2flat_px_length)
  have al: "?flat ! (4 * q + 3) = dst ! (4 * q + 3)" if q: "q < N * N" for q
    using rgba2flat_loop_nth [OF len(1) q, of 3 bg] by (simp add: rgba2flat_px_frame)
  have col: "uint (?flat ! (4 * q + c))
        = uint (dst ! (4 * q + c))
          + (32768 - uint (dst ! (4 * q + 3))) * uint (bg ! (4 * q + c)) div 32768
      \<and> ?flat ! (4 * q + c) \<le> 32768"
    if q: "q < N * N" and c: "c < 3" for q c
  proof -
    have inb: "4 * q + 3 < length dst" "4 * q + c < tile_len N"
      using q c len(1) by (simp_all add: tile_len_def)
    have x: "dst ! (4 * q + c) \<le> dst ! (4 * q + 3)" "dst ! (4 * q + 3) \<le> 32768"
    proof -
      consider "c = 0" | "c = 1" | "c = 2" using c by linarith
      then show "dst ! (4 * q + c) \<le> dst ! (4 * q + 3)"
        using pre q by cases (auto simp: premultiplied_def)
      show "dst ! (4 * q + 3) \<le> 32768" using pre q by (auto simp: premultiplied_def)
    qed
    have bb: "bg ! (4 * q + c) \<le> 32768" using b inb(2) by simp
    have "?flat ! (4 * q + c) = rgba2flat_px bg (4 * q) dst ! (4 * q + c)"
      using len(1) q c by (intro rgba2flat_loop_nth) simp_all
    also have "\<dots> = ucast (ucast (dst ! (4 * q + c))
               + (32768 - ucast (dst ! (4 * q + 3)) :: u32) * ucast (bg ! (4 * q + c)) div 32768)"
      using inb(1) c by (rule rgba2flat_px_nth)
    finally have e: "?flat ! (4 * q + c) = ucast (ucast (dst ! (4 * q + c))
               + (32768 - ucast (dst ! (4 * q + 3)) :: u32) * ucast (bg ! (4 * q + c)) div 32768)" .
    show ?thesis
      unfolding e word_le_def using rgba2flat_value [OF x bb] by simp
  qed
  have rng: "?flat ! j \<le> 32768" if j: "j < tile_len N" for j
  proof -
    have q: "j div 4 < N * N" using j by (simp add: tile_len_def)
    have e: "j = 4 * (j div 4) + j mod 4" by simp
    show ?thesis
    proof (cases "j mod 4 = 3")
      case True
      then have "?flat ! j = dst ! (4 * (j div 4) + 3)" using al [OF q] e by metis
      also have "\<dots> \<le> 32768" using pre q by (auto simp: premultiplied_def)
      finally show ?thesis .
    next
      case False
      then have "j mod 4 < 3" by presburger
      from col [OF q this] show ?thesis using e by metis
    qed
  qed
  show ?thesis
    using len lf al col rng by (simp add: tile_rgba2flat_def)
qed

lemma int_div_le:
  fixes x y a :: int
  assumes "0 < y" "x < (a + 1) * y"
  shows "x div y \<le> a"
proof (rule ccontr)
  assume "\<not> x div y \<le> a"
  then have "a + 1 \<le> x div y" by simp
  then have "(a + 1) * y \<le> x div y * y" using assms(1) by (intro mult_right_mono) simp_all
  also have "\<dots> \<le> x"
    using div_mult_mod_eq [of x y] pos_mod_sign [OF assms(1), of x] by linarith
  finally show False using assms(2) by simp
qed

text \<open>
  A colour channel that is not zero needs, once flattened, no more alpha than the pixel
  had.
\<close>

lemma flat_alpha_required_le:
  fixes f b :: u16 and r a :: int
  assumes f: "uint f = r + (32768 - a) * uint b div 32768" "uint f \<le> 32768"
    and r: "1 \<le> r" "r \<le> a"
  shows "alpha_required f b \<le> a"
proof -
  define \<beta> where "\<beta> = uint b"
  define \<phi> where "\<phi> = uint f"
  define Q where "Q = (32768 - a) * \<beta> div 32768"
  define M where "M = \<beta> * a"
  have q: "32768 * Q \<le> 32768 * \<beta> - M" "32768 * \<beta> - M < 32768 * Q + 32768"
  proof -
    have e: "(32768 - a) * \<beta> = 32768 * \<beta> - M" by (simp add: M_def algebra_simps)
    have "32768 * Q \<le> (32768 - a) * \<beta>" "(32768 - a) * \<beta> < 32768 * Q + 32768"
      unfolding Q_def
      using mult_div_mod_eq [of 32768 "(32768 - a) * \<beta>"] pos_mod_bound [of 32768 "(32768 - a) * \<beta>"]
        pos_mod_sign [of 32768 "(32768 - a) * \<beta>"] by linarith+
    then show "32768 * Q \<le> 32768 * \<beta> - M" "32768 * \<beta> - M < 32768 * Q + 32768"
      unfolding e by simp_all
  qed
  have f': "\<phi> = r + Q" "\<phi> \<le> 32768"
    using f by (simp_all add: \<phi>_def \<beta>_def Q_def)
  have nn: "0 \<le> \<phi>" "0 \<le> \<beta>"
    by (simp_all add: \<phi>_def \<beta>_def)
  show ?thesis
  proof (cases "\<phi> > \<beta>")
    case True
    then have req: "alpha_required f b = (\<phi> - \<beta>) * 32768 div (32768 - \<beta>)"
      unfolding alpha_required_def \<phi>_def \<beta>_def by (rule if_P)
    have pos: "0 < 32768 - \<beta>" using True f'(2) by linarith
    have ex: "(a + 1) * (32768 - \<beta>) = 32768 * a - M + 32768 - \<beta>"
      by (simp add: M_def algebra_simps)
    have "(\<phi> - \<beta>) * 32768 < (a + 1) * (32768 - \<beta>)"
      unfolding ex using q(1) f'(1) r(2) pos by (simp add: algebra_simps)
    with pos show ?thesis unfolding req by (rule int_div_le)
  next
    case False
    show ?thesis
    proof (cases "\<phi> < \<beta>")
      case True
      then have req: "alpha_required f b = (\<beta> - \<phi>) * 32768 div \<beta>"
        unfolding alpha_required_def \<phi>_def \<beta>_def using False by simp
      have pos: "0 < \<beta>" using True nn(1) by linarith
      have ex: "(a + 1) * \<beta> = M + \<beta>" by (simp add: M_def algebra_simps)
      have "(\<beta> - \<phi>) * 32768 < (a + 1) * \<beta>"
        unfolding ex using q(2) f'(1) r(1) pos by (simp add: algebra_simps)
      with pos show ?thesis unfolding req by (rule int_div_le)
    next
      case False
      with \<open>\<not> \<phi> > \<beta>\<close> have "alpha_required f b = 0"
        by (simp add: alpha_required_def \<phi>_def \<beta>_def)
      then show ?thesis using r by simp
    qed
  qed
qed

text \<open>
  C5, as the code has it. Flatten followed by unflatten over the same background sets
  the alpha of each pixel to the maximum of its original alpha and the three alpha
  requirements of the flattened colour. Where none of these requirements exceeds the
  original alpha, and in particular at every pixel whose three colour channels are all
  nonzero, the alpha is the original one and each colour channel is the original or
  the original minus one. At the other pixels the alpha is raised, and each colour
  channel lies between the original minus one and the original plus the increase of
  the alpha.
\<close>

theorem rgba2flat_flat2rgba_color:
  assumes "length dst = tile_len N" and "length bg = tile_len N"
    and "\<forall>q < N * N. premultiplied dst (4 * q)"
    and "\<forall>j < tile_len N. bg ! j \<le> 32768"
    and "p < N * N" and "c < 3"
  shows "\<exists>flat dst'. tile_rgba2flat N dst bg = Some flat \<and> tile_flat2rgba N flat bg = Some dst'
           \<and> uint (dst' ! (4 * p + 3))
               = max (max (max (alpha_required (flat ! (4 * p)) (bg ! (4 * p)))
                               (alpha_required (flat ! (4 * p + 1)) (bg ! (4 * p + 1))))
                          (alpha_required (flat ! (4 * p + 2)) (bg ! (4 * p + 2))))
                     (uint (dst ! (4 * p + 3)))
           \<and> dst' ! (4 * p + 3) \<le> 32768
           \<and> uint (dst ! (4 * p + c)) - 1 \<le> uint (dst' ! (4 * p + c))
           \<and> uint (dst' ! (4 * p + c))
                \<le> uint (dst ! (4 * p + c)) + (uint (dst' ! (4 * p + 3)) - uint (dst ! (4 * p + 3)))
           \<and> (alpha_required (flat ! (4 * p)) (bg ! (4 * p)) \<le> uint (dst ! (4 * p + 3))
                \<and> alpha_required (flat ! (4 * p + 1)) (bg ! (4 * p + 1)) \<le> uint (dst ! (4 * p + 3))
                \<and> alpha_required (flat ! (4 * p + 2)) (bg ! (4 * p + 2)) \<le> uint (dst ! (4 * p + 3))
                \<longrightarrow> dst' ! (4 * p + 3) = dst ! (4 * p + 3)
                    \<and> uint (dst' ! (4 * p + c)) \<le> uint (dst ! (4 * p + c)))
           \<and> (dst ! (4 * p) \<noteq> 0 \<and> dst ! (4 * p + 1) \<noteq> 0 \<and> dst ! (4 * p + 2) \<noteq> 0
                \<longrightarrow> dst' ! (4 * p + 3) = dst ! (4 * p + 3)
                    \<and> uint (dst' ! (4 * p + c)) \<le> uint (dst ! (4 * p + c)))"
proof -
  obtain flat where flat: "tile_rgba2flat N dst bg = Some flat" "length flat = tile_len N"
      "\<forall>j < tile_len N. flat ! j \<le> 32768"
      "flat ! (4 * p + 3) = dst ! (4 * p + 3)"
      "\<forall>k < 3. uint (flat ! (4 * p + k))
         = uint (dst ! (4 * p + k))
           + (32768 - uint (dst ! (4 * p + 3))) * uint (bg ! (4 * p + k)) div 32768"
    using tile_rgba2flat_premultiplied [OF assms(1-4)] assms(5) by blast
  have inb: "4 * p + 3 < tile_len N" "4 * p + c < tile_len N"
    using assms(5,6) by (simp_all add: tile_len_def)
  have c4: "c < 4" using assms(6) by simp
  obtain dst' where dst': "tile_flat2rgba N flat bg = Some dst'"
      "dst' ! (4 * p + 3) = the (flat2rgba_px bg (4 * p) flat) ! (4 * p + 3)"
    using tile_flat2rgba_nth [OF flat(2) assms(2) flat(3) assms(4,5), of 3] by auto
  obtain dst2 where dst2: "tile_flat2rgba N flat bg = Some dst2"
      "dst2 ! (4 * p + c) = the (flat2rgba_px bg (4 * p) flat) ! (4 * p + c)"
    using tile_flat2rgba_nth [OF flat(2) assms(2) flat(3) assms(4,5) c4] by auto
  have col: "dst' ! (4 * p + c) = the (flat2rgba_px bg (4 * p) flat) ! (4 * p + c)"
    using dst'(1) dst2 by simp
  let ?req = "\<lambda>k. alpha_required (flat ! (4 * p + k)) (bg ! (4 * p + k))"
  obtain fa where fa: "flat2rgba_final_alpha bg (4 * p) flat = Some fa"
      "uint fa = max (max (max (alpha_required (flat ! (4 * p)) (bg ! (4 * p))) (?req 1)) (?req 2))
                     (uint (flat ! (4 * p + 3)))"
      "fa \<le> 32768"
    using flat2rgba_final_alpha_in_range [of flat "4 * p" bg] flat(3) assms(4) inb(1) by force
  let ?r = "uint (dst ! (4 * p + c))" and ?a = "uint (dst ! (4 * p + 3))"
  let ?b = "uint (bg ! (4 * p + c))"
  have a_le: "?a \<le> uint fa" unfolding fa(2) flat(4) by simp
  have pre: "uint (dst ! (4 * p + k)) \<le> ?a" if k3: "k < 3" for k
  proof -
    consider "k = 0" | "k = 1" | "k = 2" using k3 by linarith
    then show ?thesis
      using assms(3,5) by cases (auto simp: premultiplied_def word_le_def)
  qed
  have r: "0 \<le> ?r" "?r \<le> ?a" using pre [OF assms(6)] by simp_all
  have b: "0 \<le> ?b" "?b \<le> 32768"
    using assms(4) inb(2) by (simp_all add: uint_u16_fix15 [symmetric])
  have alpha: "dst' ! (4 * p + 3) = fa"
    using dst'(2) inb(1) flat(2) by (simp add: flat2rgba_px_Some [OF fa(1)])
  have color: "dst' ! (4 * p + c)
      = (if fa > 0 then flat2rgba_color fa (flat ! (4 * p + c)) (bg ! (4 * p + c)) else 0)"
  proof -
    consider "c = 0" | "c = 1" | "c = 2" using assms(6) by linarith
    then show ?thesis
      unfolding col using inb(1) flat(2)
      by cases (simp_all add: flat2rgba_px_Some [OF fa(1)])
  qed
  have bounds: "?r - 1 \<le> uint (dst' ! (4 * p + c))" "uint (dst' ! (4 * p + c)) \<le> ?r + (uint fa - ?a)"
  proof -
    have "?r - 1 \<le> uint (dst' ! (4 * p + c)) \<and> uint (dst' ! (4 * p + c)) \<le> ?r + (uint fa - ?a)"
    proof (cases "fa > 0")
      case True
      have "uint (dst' ! (4 * p + c))
          = CLAMP (?b * uint fa div 32768 + (?r + (32768 - ?a) * ?b div 32768 - ?b)) 0 (uint fa)"
        using True flat(5) assms(6) by (simp add: color flat2rgba_color_uint)
      then show ?thesis
        using unflatten_color_bounds [OF r a_le b] by simp
    next
      case False
      then have "uint fa = 0" by (simp add: word_less_def not_less)
      then have "?a = 0" "?r = 0" using a_le r by simp_all
      then show ?thesis using False \<open>uint fa = 0\<close> by (simp add: color)
    qed
    then show "?r - 1 \<le> uint (dst' ! (4 * p + c))"
      "uint (dst' ! (4 * p + c)) \<le> ?r + (uint fa - ?a)" by simp_all
  qed
  have same: "fa = dst ! (4 * p + 3) \<and> uint (dst' ! (4 * p + c)) \<le> ?r"
    if "alpha_required (flat ! (4 * p)) (bg ! (4 * p)) \<le> ?a" "?req 1 \<le> ?a" "?req 2 \<le> ?a"
  proof -
    have "uint fa = ?a" unfolding fa(2) flat(4) using that by simp
    then show ?thesis using bounds(2) by (simp add: word_uint_eq_iff)
  qed
  have req_le: "?req k \<le> ?a" if k: "k < 3" and nz: "dst ! (4 * p + k) \<noteq> 0" for k
  proof (rule flat_alpha_required_le)
    show "uint (flat ! (4 * p + k))
        = uint (dst ! (4 * p + k)) + (32768 - ?a) * uint (bg ! (4 * p + k)) div 32768"
      using flat(5) k by simp
    have "4 * p + k < tile_len N" using inb(1) k by simp
    then show "uint (flat ! (4 * p + k)) \<le> 32768"
      using flat(3) by (simp add: uint_u16_fix15 [symmetric])
    have "uint (dst ! (4 * p + k)) \<noteq> 0" using nz by (simp add: word_uint_eq_iff)
    moreover have "0 \<le> uint (dst ! (4 * p + k))" by simp
    ultimately show "1 \<le> uint (dst ! (4 * p + k))" by linarith
    show "uint (dst ! (4 * p + k)) \<le> ?a" using k by (rule pre)
  qed
  have nonzero: "fa = dst ! (4 * p + 3) \<and> uint (dst' ! (4 * p + c)) \<le> ?r"
    if "dst ! (4 * p) \<noteq> 0" "dst ! (4 * p + 1) \<noteq> 0" "dst ! (4 * p + 2) \<noteq> 0"
    using same req_le [of 0] req_le [of 1] req_le [of 2] that by simp
  have "uint fa = max (max (max (alpha_required (flat ! (4 * p)) (bg ! (4 * p))) (?req 1)) (?req 2)) ?a"
    using fa(2) flat(4) by simp
  then show ?thesis
    using flat(1) dst'(1) alpha fa(3) bounds same nonzero by simp
qed

theorem rgba2flat_flat2rgba_color_witness:
  "tile_rgba2flat 1 [6144, 2048, 1024, 8192] [8192, 8192, 8192, 32768]
     = Some [12288, 8192, 7168, 8192]
   \<and> tile_flat2rgba 1 [12288, 8192, 7168, 8192] [8192, 8192, 8192, 32768]
     = Some [6144, 2048, 1024, 8192]
   \<and> alpha_required 12288 8192 \<le> uint (8192 :: u16)
   \<and> alpha_required 8192 8192 \<le> uint (8192 :: u16)
   \<and> alpha_required 7168 8192 \<le> uint (8192 :: u16)"
proof -
  have pre: "\<forall>q < 1 * 1. premultiplied [6144, 2048, 1024, 8192] (4 * q)"
    by (simp add: premultiplied_def)
  have b: "\<forall>j < tile_len 1. [8192, 8192, 8192, 32768 :: u16] ! j \<le> 32768"
  proof (intro allI impI)
    fix j :: nat assume "j < tile_len 1"
    then have "j = 0 \<or> j = 1 \<or> j = 2 \<or> j = 3" by (auto simp: tile_len_def)
    then show "[8192, 8192, 8192, 32768 :: u16] ! j \<le> 32768" by auto
  qed
  have e1: "tile_rgba2flat 1 [6144, 2048, 1024, 8192] [8192, 8192, 8192, 32768]
      = Some [12288, 8192, 7168, 8192]"
    by (simp add: tile_rgba2flat_def tile_len_def rgba2flat_px_def Let_def)
  have e2: "tile_flat2rgba 1 [12288, 8192, 7168, 8192] [8192, 8192, 8192, 32768]
      = Some [6144, 2048, 1024, 8192]"
    by (simp add: tile_flat2rgba_def tile_len_def flat2rgba_px_def flat2rgba_final_alpha_def
        flat2rgba_alpha_step_def flat2rgba_color_def Let_def MAX_int_def CLAMP_def for_loop_3
        signed_divide_int_def)
  have e3: "alpha_required 12288 8192 \<le> uint (8192 :: u16)"
    "alpha_required 8192 8192 \<le> uint (8192 :: u16)"
    "alpha_required 7168 8192 \<le> uint (8192 :: u16)"
    by (simp_all add: alpha_required_def)
  show ?thesis
    using rgba2flat_flat2rgba_color [OF _ _ pre b, of 0 0] e1 e2 e3 by (simp add: tile_len_def)
qed

text \<open>
  The original colour is not recovered where the flat colour forces a higher alpha: the nearly
  transparent black pixel \<open>(0, 0, 0, 1)\<close> over the background \<open>(1, 32768, 32768)\<close> flattens
  to \<open>(0, 32767, 32767)\<close>, and unflatten returns the opaque pixel
  \<open>(0, 32767, 32767, 32768)\<close>, 32767 away from the original in two channels.
\<close>

theorem rgba2flat_flat2rgba_counterexample:
  "tile_rgba2flat 1 [0, 0, 0, 1] [1, 32768, 32768, 32768] = Some [0, 32767, 32767, 1]
   \<and> tile_flat2rgba 1 [0, 32767, 32767, 1] [1, 32768, 32768, 32768]
       = Some [0, 32767, 32767, 32768]
   \<and> premultiplied [0, 0, 0, 1] 0"
  by (simp add: tile_rgba2flat_def tile_len_def rgba2flat_px_def
      tile_flat2rgba_def flat2rgba_px_def flat2rgba_final_alpha_def
      flat2rgba_alpha_step_def flat2rgba_color_def Let_def MAX_int_def CLAMP_def for_loop_3
      signed_divide_int_def premultiplied_def)

subsection \<open>The round trip through 16 bits\<close>

lemma div_bounds:
  fixes m n :: nat
  assumes "0 < n"
  shows "n * (m div n) \<le> m" and "m < n * (m div n) + n"
proof -
  show "n * (m div n) \<le> m" by simp
  have "m mod n < n" using assms by simp
  then show "m < n * (m div n) + n"
    using mult_div_mod_eq [of n m] by linarith
qed

lemma div_eqI:
  fixes m n q :: nat
  assumes "n * q \<le> m" "m < n * q + n"
  shows "m div n = q"
  using assms by (intro div_nat_eqI) simp_all

lemma to_fix15_bounds:
  fixes x :: nat
  assumes "x \<le> 255"
  shows "255 * ((x * 32768 + 127) div 255) \<le> x * 32768 + 127"
    and "x * 32768 < 255 * ((x * 32768 + 127) div 255) + 128"
    and "(x * 32768 + 127) div 255 \<le> 32768"
proof -
  show "255 * ((x * 32768 + 127) div 255) \<le> x * 32768 + 127" by simp
  show "x * 32768 < 255 * ((x * 32768 + 127) div 255) + 128"
    using div_bounds(2) [of 255 "x * 32768 + 127"] by simp
  have "x * 32768 + 127 \<le> 255 * 32768 + 127" using assms by simp
  then have "(x * 32768 + 127) div 255 \<le> (255 * 32768 + 127) div 255" by (rule div_le_mono)
  then show "(x * 32768 + 127) div 255 \<le> 32768" by simp
qed

lemma alpha_roundtrip_nat:
  fixes a8 n :: nat
  assumes "a8 \<le> 255" "984 \<le> n" "n \<le> 31784"
  shows "((a8 * 32768 + 127) div 255 * 255 + n) div 32768 = a8"
proof (rule div_eqI)
  let ?A = "(a8 * 32768 + 127) div 255"
  have b: "255 * ?A \<le> a8 * 32768 + 127" "a8 * 32768 < 255 * ?A + 128"
    using to_fix15_bounds [OF assms(1)] by simp_all
  show "32768 * a8 \<le> ?A * 255 + n" using b(2) assms(2) by linarith
  show "?A * 255 + n < 32768 * a8 + 32768" using b(1) assms(3) by linarith
qed

lemma color_roundtrip_nat:
  fixes r8 a8 n :: nat
  assumes r8: "r8 \<le> 255" and a8: "a8 \<le> 255" "37 \<le> a8" and n: "984 \<le> n" "n \<le> 31784"
  defines "R \<equiv> (r8 * 32768 + 127) div 255"
    and "A \<equiv> (a8 * 32768 + 127) div 255"
  defines "P \<equiv> (R * A + 16384) div 32768"
  defines "R' \<equiv> (P * 32768 + A div 2) div A"
  shows "(R' * 255 + n) div 32768 = r8" and "R' \<le> R + 3" and "P \<le> 32768" and "4755 \<le> A"
proof -
  have Rb: "255 * R \<le> r8 * 32768 + 127" "r8 * 32768 < 255 * R + 128" "R \<le> 32768"
    unfolding R_def using to_fix15_bounds [OF r8] by simp_all
  have Ab: "255 * A \<le> a8 * 32768 + 127" "a8 * 32768 < 255 * A + 128" "A \<le> 32768"
    unfolding A_def using to_fix15_bounds [OF a8(1)] by simp_all
  show A: "4755 \<le> A" using Ab(2) a8(2) by linarith
  then have A0: "0 < A" by simp
  have Pb: "32768 * P \<le> R * A + 16384" "R * A + 16384 < 32768 * P + 32768"
    unfolding P_def using div_bounds [of 32768 "R * A + 16384"] by simp_all
  have "R * A \<le> 32768 * 32768" using Rb(3) Ab(3) by (rule mult_le_mono)
  then show P: "P \<le> 32768" using Pb(1) by linarith
  have R'b: "A * R' \<le> P * 32768 + A div 2" "P * 32768 + A div 2 < A * R' + A"
    unfolding R'_def using div_bounds [OF A0, of "P * 32768 + A div 2"] by simp_all
  have up: "R' \<le> R + 3"
  proof (rule ccontr)
    assume "\<not> R' \<le> R + 3"
    then have "R + 4 \<le> R'" by simp
    then have "A * (R + 4) \<le> A * R'" by (rule mult_le_mono2)
    then have "R * A + 4 * A \<le> A * R'" by (simp add: algebra_simps)
    then show False using R'b(1) Pb(1) A by linarith
  qed
  then show "R' \<le> R + 3" .
  have lo: "R \<le> R' + 3"
  proof (rule ccontr)
    assume "\<not> R \<le> R' + 3"
    then have "R' + 4 \<le> R" by simp
    then have "A * (R' + 4) \<le> A * R" by (rule mult_le_mono2)
    then have "A * R' + 4 * A \<le> R * A" by (simp add: algebra_simps)
    then show False using R'b(2) Pb(2) A by linarith
  qed
  show "(R' * 255 + n) div 32768 = r8"
  proof (rule div_eqI)
    show "32768 * r8 \<le> R' * 255 + n" using lo Rb(2) n(1) by linarith
    show "R' * 255 + n < 32768 * r8 + 32768" using up Rb(1) n(2) by linarith
  qed
qed

lemma to_fix15_unat:
  fixes x :: u8
  shows "unat ((ucast x * 32768 + 127) div 255 :: u32) = (unat x * 32768 + 127) div 255"
proof -
  have x: "unat x \<le> 255" using unat_u8_lt [of x] by simp
  then have "unat x * 32768 \<le> 255 * 32768" by simp
  then have m: "unat (ucast x * 32768 :: u32) = unat x * 32768"
    by (subst unat_u32_mult) (simp_all add: unat_u8_u32)
  have "unat (ucast x * 32768 :: u32) + unat (127 :: u32) < 4294967296"
    unfolding m using x by simp
  then have "unat (ucast x * 32768 + 127 :: u32) = unat x * 32768 + 127"
    by (simp only: unat_u32_add m) simp
  then show ?thesis by (subst unat_div) simp
qed

lemma premultiply_unat:
  fixes R A :: u32
  assumes "unat R \<le> 32768" "unat A \<le> 32768"
  shows "unat (ucast ((R * A + 16384) div 32768) :: u16) = (unat R * unat A + 16384) div 32768"
proof -
  have p: "unat R * unat A \<le> 1073741824" using assms by (rule fix15_prod_le)
  then have m: "unat (R * A) = unat R * unat A"
    by (subst unat_u32_mult) simp_all
  have "unat (R * A) + unat (16384 :: u32) < 4294967296" unfolding m using p by simp
  then have s: "unat (R * A + 16384) = unat R * unat A + 16384"
    by (simp only: unat_u32_add m) simp
  have q: "unat ((R * A + 16384) div 32768) = (unat R * unat A + 16384) div 32768"
    by (subst unat_div) (simp add: s)
  have "(unat R * unat A + 16384) div 32768 \<le> (1073741824 + 16384) div 32768"
    using p by (intro div_le_mono) simp
  then have "(unat R * unat A + 16384) div 32768 < 65536" by simp
  then show ?thesis unfolding unat_u32_u16 q by simp
qed

lemma unpremultiply_unat:
  fixes P A :: u16
  assumes "unat P \<le> 32768" "unat A \<le> 32768"
  shows "unat ((push_bit 15 (ucast P) + ucast A div 2) div ucast A :: u32)
           = (unat P * 32768 + unat A div 2) div unat A"
proof -
  have "unat P * 32768 \<le> 32768 * 32768" using assms(1) by simp
  then have m: "unat (ucast P * 32768 :: u32) = unat P * 32768"
    by (subst unat_u32_mult) (simp_all add: unat_u16_u32)
  have h: "unat (ucast A div 2 :: u32) = unat A div 2"
    by (subst unat_div) (simp add: unat_u16_u32)
  have "unat (ucast P * 32768 :: u32) + unat (ucast A div 2 :: u32) < 4294967296"
    unfolding m h using assms by simp
  then have s: "unat (ucast P * 32768 + ucast A div 2 :: u32) = unat P * 32768 + unat A div 2"
    by (simp only: unat_u32_add m h)
  show ?thesis
    unfolding push_bit_eq_mult by (subst unat_div) (simp add: s unat_u16_u32)
qed

lemma to_8bit_unat:
  fixes X :: u32 and n :: u16
  assumes "unat X \<le> 100000"
  shows "unat (ucast ((X * 255 + ucast n) div 32768) :: u8) = (unat X * 255 + unat n) div 32768 mod 256"
proof -
  have m: "unat (X * 255) = unat X * 255"
    using assms by (subst unat_u32_mult) simp_all
  have "unat (X * 255) + unat (ucast n :: u32) < 4294967296"
    unfolding m unat_u16_u32 using assms unat_u16_lt [of n] by simp
  then have s: "unat (X * 255 + ucast n) = unat X * 255 + unat n"
    by (simp only: unat_u32_add m unat_u16_u32)
  show ?thesis
    unfolding unat_u32_u8 by (subst unat_div) (simp add: s)
qed

lemma rgba8_to_rgba16_px_length: "length (rgba8_to_rgba16_px src sp dp dst) = length dst"
  by (simp add: rgba8_to_rgba16_px_def Let_def)

lemma rgba8_to_rgba16_px_frame:
  "j < dp \<or> dp + 4 \<le> j \<Longrightarrow> rgba8_to_rgba16_px src sp dp dst ! j = dst ! j"
  by (auto simp: rgba8_to_rgba16_px_def Let_def)

lemma rgba8_to_rgba16_px_nth:
  assumes "dp + 3 < length dst"
  shows "c < 3 \<Longrightarrow> rgba8_to_rgba16_px src sp dp dst ! (dp + c)
           = ucast ((((ucast (src ! (sp + c)) * 32768 + 127) div 255 :: u32)
                    * ((ucast (src ! (sp + 3)) * 32768 + 127) div 255) + 16384) div 32768)"
    and "rgba8_to_rgba16_px src sp dp dst ! (dp + 3)
           = ucast ((ucast (src ! (sp + 3)) * 32768 + 127) div 255 :: u32)"
proof -
  show "rgba8_to_rgba16_px src sp dp dst ! (dp + 3)
           = ucast ((ucast (src ! (sp + 3)) * 32768 + 127) div 255 :: u32)"
    using assms by (simp add: rgba8_to_rgba16_px_def Let_def)
  assume "c < 3"
  then consider "c = 0" | "c = 1" | "c = 2" by linarith
  then show "rgba8_to_rgba16_px src sp dp dst ! (dp + c)
           = ucast ((((ucast (src ! (sp + c)) * 32768 + 127) div 255 :: u32)
                    * ((ucast (src ! (sp + 3)) * 32768 + 127) div 255) + 16384) div 32768)"
    using assms by cases (simp_all add: rgba8_to_rgba16_px_def Let_def)
qed

lemma rgba8_to_rgba16_loop_nth:
  assumes len: "length dst = tile_len N" and p: "p < N * N" and c: "c < 4"
  shows "for_loop N (\<lambda>y. for_loop N (\<lambda>x.
            rgba8_to_rgba16_px src (y * (4 * N) + 4 * x) (y * (4 * N) + 4 * x))) dst ! (4 * p + c)
         = rgba8_to_rgba16_px src (4 * p) (4 * p) dst ! (4 * p + c)"
proof -
  have "for_loop N (\<lambda>y. for_loop N (\<lambda>x.
            rgba8_to_rgba16_px src (y * (4 * N) + 4 * x) (y * (4 * N) + 4 * x))) dst
      = for_loop (N * N) (\<lambda>q. rgba8_to_rgba16_px src (4 * q) (4 * q)) dst"
    by (rule for_loop_tile [where f = "\<lambda>k. rgba8_to_rgba16_px src k k"])
  moreover have "for_loop (N * N) (\<lambda>q. rgba8_to_rgba16_px src (4 * q) (4 * q)) dst ! (4 * p + c)
      = rgba8_to_rgba16_px src (4 * p) (4 * p) dst ! (4 * p + c)"
    using p c len
  proof (rule pixel_loop_nth)
    show "\<And>q d. length d = tile_len N \<Longrightarrow> length (rgba8_to_rgba16_px src (4 * q) (4 * q) d) = tile_len N"
      by (simp add: rgba8_to_rgba16_px_length)
    show "\<And>q d j. j < 4 * q \<or> 4 * q + 4 \<le> j \<Longrightarrow> rgba8_to_rgba16_px src (4 * q) (4 * q) d ! j = d ! j"
      by (rule rgba8_to_rgba16_px_frame)
    show "rgba8_to_rgba16_px src (4 * p) (4 * p) d ! (4 * p + c)
        = rgba8_to_rgba16_px src (4 * p) (4 * p) d' ! (4 * p + c)"
      if a: "length d = tile_len N" "length d' = tile_len N" "c < 4" for d d' c
    proof -
      have inb: "4 * p + 3 < length d" "4 * p + 3 < length d'"
        using a(1,2) p by (simp_all add: tile_len_def)
      show ?thesis
      proof (cases "c = 3")
        case True
        then show ?thesis
          by (simp add: rgba8_to_rgba16_px_nth(2) [OF inb(1)] rgba8_to_rgba16_px_nth(2) [OF inb(2)])
      next
        case False
        then have "c < 3" using a(3) by simp
        then show ?thesis
          by (simp add: rgba8_to_rgba16_px_nth(1) [OF inb(1)] rgba8_to_rgba16_px_nth(1) [OF inb(2)])
      qed
    qed
  qed
  ultimately show ?thesis by simp
qed

lemma rgba16_to_rgba8_px_alpha:
  assumes "dp + 3 < length dst"
  shows "snd (rgba16_to_rgba8_px noise src sp dp (idx, dst)) ! (dp + 3)
           = ucast (((ucast (src ! (sp + 3)) :: u32) * 255 + ucast (noise ! (idx + 1))) div 32768)"
  using assms by (simp add: rgba16_to_rgba8_px_def Let_def)

lemma rgba16_to_rgba8_px_nth:
  assumes "dp + 3 < length dst" and "src ! (sp + 3) \<noteq> 0" and "c < 3"
  shows "snd (rgba16_to_rgba8_px noise src sp dp (idx, dst)) ! (dp + c)
           = ucast ((((push_bit 15 (ucast (src ! (sp + c))) + ucast (src ! (sp + 3)) div 2)
                      div ucast (src ! (sp + 3)) :: u32) * 255 + ucast (noise ! idx)) div 32768)"
proof -
  have nz: "(ucast (src ! (sp + 3)) :: u32) \<noteq> 0"
    using assms(2) by (simp add: word_unat_eq_iff unat_u16_u32)
  consider "c = 0" | "c = 1" | "c = 2" using assms(3) by linarith
  then show ?thesis
    using assms(1) nz by cases (simp_all add: rgba16_to_rgba8_px_def Let_def)
qed

text \<open>
  C6, as the code has it. Converting an 8-bit tile to 16 bits and back returns, for
  every noise table within the documented band \<open>[984, 31784]\<close>, the original alpha of
  every pixel and the original colour channels of every pixel whose 8-bit alpha is at
  least 37 (of 255): the premultiplied colour then loses at most 3 units of the 15-bit
  scale, which the band absorbs.
\<close>

theorem rgba8_rgba16_rgba8_roundtrip:
  assumes "length src = tile_len N" and "length mid = tile_len N" and "length dst = tile_len N"
    and "2 * (N * N) \<le> length (dithering_noise (precalculate_dithering_noise_if_required rnd st))"
    and "noise_in_band (dithering_noise (precalculate_dithering_noise_if_required rnd st))"
    and "p < N * N"
  shows "\<exists>t16 st' out. tile_convert_rgba8_to_rgba16 N src mid = Some t16
           \<and> tile_convert_rgba16_to_rgba8 N rnd st t16 dst = Some (st', out)
           \<and> out ! (4 * p + 3) = src ! (4 * p + 3)
           \<and> (37 \<le> unat (src ! (4 * p + 3)) \<longrightarrow>
                out ! (4 * p) = src ! (4 * p) \<and> out ! (4 * p + 1) = src ! (4 * p + 1)
                \<and> out ! (4 * p + 2) = src ! (4 * p + 2))"
proof -
  let ?noise = "dithering_noise (precalculate_dithering_noise_if_required rnd st)"
  let ?t16 = "for_loop N (\<lambda>y. for_loop N (\<lambda>x.
            rgba8_to_rgba16_px src (y * (4 * N) + 4 * x) (y * (4 * N) + 4 * x))) mid"
  let ?out = "snd (for_loop N (\<lambda>y. for_loop N (\<lambda>x.
            rgba16_to_rgba8_px ?noise ?t16 (y * (4 * N) + 4 * x) (y * (4 * N) + 4 * x))) (0, dst))"
  let ?a8 = "unat (src ! (4 * p + 3))"
  let ?A = "(?a8 * 32768 + 127) div 255"
  have lt: "length ?t16 = tile_len N"
    using assms(2) by (subst for_loop_length, subst for_loop_length)
      (simp_all add: rgba8_to_rgba16_px_length)
  have inb: "4 * p + 3 < length mid" "4 * p + 3 < length dst"
    using assms(2,3,6) by (simp_all add: tile_len_def)
  have a8: "?a8 \<le> 255" using unat_u8_lt [of "src ! (4 * p + 3)"] by simp
  have A: "?A \<le> 32768" using to_fix15_bounds(3) [OF a8] .
  have n0: "984 \<le> unat (?noise ! (2 * p))" "unat (?noise ! (2 * p)) \<le> 31784"
   and n1: "984 \<le> unat (?noise ! (2 * p + 1))" "unat (?noise ! (2 * p + 1)) \<le> 31784"
  proof -
    have "?noise ! (2 * p) \<in> set ?noise" "?noise ! (2 * p + 1) \<in> set ?noise"
      using assms(4,6) by simp_all
    then show "984 \<le> unat (?noise ! (2 * p))" "unat (?noise ! (2 * p)) \<le> 31784"
      "984 \<le> unat (?noise ! (2 * p + 1))" "unat (?noise ! (2 * p + 1)) \<le> 31784"
      using assms(5) by (simp_all add: noise_in_band_def)
  qed
  text \<open>the 16-bit pixel\<close>
  have t_alpha: "unat (?t16 ! (4 * p + 3)) = ?A"
  proof -
    have "?t16 ! (4 * p + 3) = rgba8_to_rgba16_px src (4 * p) (4 * p) mid ! (4 * p + 3)"
      using assms(2,6) by (intro rgba8_to_rgba16_loop_nth) simp_all
    then have "unat (?t16 ! (4 * p + 3)) = ?A mod 65536"
      by (simp only: rgba8_to_rgba16_px_nth(2) [OF inb(1)] unat_u32_u16 to_fix15_unat)
    then show ?thesis using A by simp
  qed
  have t_color: "unat (?t16 ! (4 * p + c))
      = ((unat (src ! (4 * p + c)) * 32768 + 127) div 255 * ?A + 16384) div 32768" if c: "c < 3" for c
  proof -
    have r8: "unat (src ! (4 * p + c)) \<le> 255" using unat_u8_lt [of "src ! (4 * p + c)"] by simp
    have "?t16 ! (4 * p + c) = rgba8_to_rgba16_px src (4 * p) (4 * p) mid ! (4 * p + c)"
      using assms(2,6) c by (intro rgba8_to_rgba16_loop_nth) simp_all
    also have "\<dots> = ucast ((((ucast (src ! (4 * p + c)) * 32768 + 127) div 255 :: u32)
                    * ((ucast (src ! (4 * p + 3)) * 32768 + 127) div 255) + 16384) div 32768)"
      using inb(1) c by (rule rgba8_to_rgba16_px_nth(1))
    finally show ?thesis
      using to_fix15_bounds(3) [OF r8] A by (simp only: premultiply_unat to_fix15_unat)
  qed
  text \<open>back to 8 bits\<close>
  have out_nth: "?out ! (4 * p + c)
      = snd (rgba16_to_rgba8_px ?noise ?t16 (4 * p) (4 * p) (2 * p, dst)) ! (4 * p + c)"
    if "c < 4" for c
    using assms(3,6) that by (intro rgba16_to_rgba8_loop_nth(1)) simp_all
  have alpha: "?out ! (4 * p + 3) = src ! (4 * p + 3)"
  proof -
    have "unat (ucast (?t16 ! (4 * p + 3)) :: u32) \<le> 100000"
      unfolding unat_u16_u32 t_alpha using A by simp
    then have "unat (?out ! (4 * p + 3)) = (?A * 255 + unat (?noise ! (2 * p + 1))) div 32768 mod 256"
      unfolding out_nth [of 3, simplified] rgba16_to_rgba8_px_alpha [OF inb(2)]
      by (simp only: to_8bit_unat unat_u16_u32 t_alpha)
    also have "\<dots> = ?a8 mod 256"
      using alpha_roundtrip_nat [OF a8 n1] by simp
    finally show ?thesis using a8 by (simp add: word_unat_eq_iff)
  qed
  have color: "?out ! (4 * p + c) = src ! (4 * p + c)" if c: "c < 3" and big: "37 \<le> ?a8" for c
  proof -
    let ?r8 = "unat (src ! (4 * p + c))"
    let ?R = "(?r8 * 32768 + 127) div 255"
    let ?P = "(?R * ?A + 16384) div 32768"
    let ?R' = "(?P * 32768 + ?A div 2) div ?A"
    have r8: "?r8 \<le> 255" using unat_u8_lt [of "src ! (4 * p + c)"] by simp
    note rt = color_roundtrip_nat [OF r8 a8 big n0]
    have nz: "?t16 ! (4 * p + 3) \<noteq> 0"
      using t_alpha rt(4) by (auto simp: word_unat_eq_iff)
    have P: "unat (?t16 ! (4 * p + c)) \<le> 32768" "unat (?t16 ! (4 * p + 3)) \<le> 32768"
      unfolding t_color [OF c] t_alpha using rt(3) A by simp_all
    have un: "unat ((push_bit 15 (ucast (?t16 ! (4 * p + c))) + ucast (?t16 ! (4 * p + 3)) div 2)
                      div ucast (?t16 ! (4 * p + 3)) :: u32) = ?R'"
      unfolding unpremultiply_unat [OF P] t_color [OF c] t_alpha ..
    have "?R' \<le> 100000" using rt(2) to_fix15_bounds(3) [OF r8] by linarith
    then have "unat ((push_bit 15 (ucast (?t16 ! (4 * p + c))) + ucast (?t16 ! (4 * p + 3)) div 2)
                      div ucast (?t16 ! (4 * p + 3)) :: u32) \<le> 100000"
      unfolding un .
    then have "unat (?out ! (4 * p + c)) = (?R' * 255 + unat (?noise ! (2 * p))) div 32768 mod 256"
      unfolding out_nth [of c, OF less_trans [OF c], simplified]
        rgba16_to_rgba8_px_nth [OF inb(2) nz c]
      by (simp only: to_8bit_unat un)
    also have "\<dots> = ?r8 mod 256" using rt(1) by simp
    finally show ?thesis using r8 by (simp add: word_unat_eq_iff)
  qed
  have "37 \<le> ?a8 \<longrightarrow> ?out ! (4 * p) = src ! (4 * p) \<and> ?out ! (4 * p + 1) = src ! (4 * p + 1)
                \<and> ?out ! (4 * p + 2) = src ! (4 * p + 2)"
    using color [of 0] color [of 1] color [of 2] by simp
  then show ?thesis
    using assms(1-4) lt alpha
    by (simp add: tile_convert_rgba8_to_rgba16_def tile_convert_rgba16_to_rgba8_def Let_def)
qed

theorem rgba8_rgba16_rgba8_roundtrip_witness:
  "tile_convert_rgba8_to_rgba16 1 [200, 100, 50, 128] [0, 0, 0, 0]
     = Some [12900, 6450, 3225, 16448]
   \<and> tile_convert_rgba16_to_rgba8 1 (\<lambda>i. 0)
        \<lparr>have_noise = True, dithering_noise = [1024, 31743]\<rparr> [12900, 6450, 3225, 16448] [0, 0, 0, 0]
     = Some (\<lparr>have_noise = True, dithering_noise = [1024, 31743]\<rparr>, [200, 100, 50, 128])
   \<and> 37 \<le> unat ([200, 100, 50, 128 :: u8] ! (4 * 0 + 3))"
proof -
  let ?st = "\<lparr>have_noise = True, dithering_noise = [1024, 31743 :: u16]\<rparr>"
  have pre: "precalculate_dithering_noise_if_required (\<lambda>i. 0) ?st = ?st"
    by (simp add: precalculate_dithering_noise_if_required_def)
  have e1: "tile_convert_rgba8_to_rgba16 1 [200, 100, 50, 128] [0, 0, 0, 0]
     = Some [12900, 6450, 3225, 16448]"
    by (simp add: tile_convert_rgba8_to_rgba16_def tile_len_def rgba8_to_rgba16_px_def Let_def)
  have e2: "tile_convert_rgba16_to_rgba8 1 (\<lambda>i. 0) ?st [12900, 6450, 3225, 16448] [0, 0, 0, 0]
     = Some (?st, [200, 100, 50, 128])"
    by (simp add: tile_convert_rgba16_to_rgba8_def pre tile_len_def rgba16_to_rgba8_px_def Let_def)
  have "\<exists>t16 st' out. tile_convert_rgba8_to_rgba16 1 [200, 100, 50, 128] [0, 0, 0, 0] = Some t16
           \<and> tile_convert_rgba16_to_rgba8 1 (\<lambda>i. 0) ?st t16 [0, 0, 0, 0] = Some (st', out)
           \<and> out ! (4 * 0 + 3) = [200, 100, 50, 128] ! (4 * 0 + 3)
           \<and> (37 \<le> unat ([200, 100, 50, 128 :: u8] ! (4 * 0 + 3)) \<longrightarrow>
                out ! (4 * 0) = [200, 100, 50, 128] ! (4 * 0)
                \<and> out ! (4 * 0 + 1) = [200, 100, 50, 128] ! (4 * 0 + 1)
                \<and> out ! (4 * 0 + 2) = [200, 100, 50, 128] ! (4 * 0 + 2))"
    by (rule rgba8_rgba16_rgba8_roundtrip) (simp_all add: pre tile_len_def noise_in_band_def)
  then show ?thesis using e1 e2 by simp
qed

text \<open>
  Below that bound the conversion alters colours that were exact 8-bit values: at
  alpha 36 (0.14) the channel value 110 comes back as 109 when the noise sample is
  1024, the lowest value the generator produces.
\<close>

theorem rgba8_rgba16_rgba8_roundtrip_counterexample:
  "tile_convert_rgba8_to_rgba16 1 [110, 0, 0, 36] [0, 0, 0, 0] = Some [1995, 0, 0, 4626]
   \<and> tile_convert_rgba16_to_rgba8 1 (\<lambda>i. 0)
        \<lparr>have_noise = True, dithering_noise = [1024, 1024]\<rparr> [1995, 0, 0, 4626] [0, 0, 0, 0]
     = Some (\<lparr>have_noise = True, dithering_noise = [1024, 1024]\<rparr>, [109, 0, 0, 36])
   \<and> 984 \<le> unat (1024 :: u16) \<and> unat (1024 :: u16) \<le> 31784
   \<and> [109, 0, 0, 36 :: u8] ! 0 \<noteq> [110, 0, 0, 36] ! 0"
  by (simp add: tile_convert_rgba8_to_rgba16_def tile_convert_rgba16_to_rgba8_def
      precalculate_dithering_noise_if_required_def tile_len_def rgba8_to_rgba16_px_def
      rgba16_to_rgba8_px_def Let_def)

end
